theory Spec2Isabelle
  imports Complex_Main "HOL-Library.Sublist"
begin

section \<open>Data model of pbfdownloader.py\<close>

text \<open>
  The script is one module-level program: a few helper procedures and a nest of loops
  (source, zoom, row, column, retry) over module-level variables. The variables become
  the fields of the record \<open>state\<close>, the loops become recursive functions that take and
  return the state, and the exceptions (an index out of range, a name read before it is
  bound, a float out of range in \<open>deg2num\<close>) become the \<open>Inl\<close> results of a sum type.

  What the program does to its surroundings (requests, log lines, files written, pauses)
  is appended to the field \<open>Trace\<close>, oldest event first. What the surroundings do to the
  program (the HTTP answers, a termination signal) is read from the record \<open>world\<close>,
  indexed by the field \<open>Clock\<close>, which counts the blocking calls made so far
  (\<open>requests.get\<close>, \<open>sleep\<close>, the metadata write and \<open>shutil.copy\<close>): a signal that
  arrives during blocking call \<open>k\<close> runs \<open>handler_stop_signals\<close>, which clears \<open>Run\<close>,
  before the call returns.
\<close>

datatype error = IndexError | NameError | OverflowError

text \<open>A step that can raise returns \<open>Inl (e, s)\<close>, the exception and the state it left
  behind (the files stay as they were written), or \<open>Inr\<close> with its result.\<close>

text \<open>The named tuple \<open>Status\<close>; its fields \<open>X\<close>, \<open>Y\<close>, \<open>Z\<close>, \<open>TotalTileCount\<close> carry the
  prefix \<open>Status\<close> here, since the module has variables of the same names.\<close>

record Status =
  Source :: nat
  StatusX :: int
  StatusY :: int
  StatusZ :: nat
  StatusTotalTileCount :: nat

text \<open>\<open>Tile(z, x, y, data)\<close> of pymbtiles.\<close>

record Tile =
  tile_z :: nat
  tile_x :: int
  tile_y :: int
  tile_data :: string

text \<open>One entry of \<open>mapconfig.json\<close>. The key \<open>min_z\<close> is read into the variable
  \<open>min_z0\<close> (line 165), whose name the field takes. The four numbers of the bounding box
  are finite doubles, held as the real numbers they denote.\<close>

record mapsource =
  DownloadURL :: string
  BoundingBox :: "real \<times> real \<times> real \<times> real"
  ServerParts :: "string list"
  MBtilesDB :: string
  Name :: string
  min_z0 :: nat
  max_z :: nat
  ReadSpacing :: real

datatype logmsg =
    LogStart
  | LogPickUp Status
  | LogNowProcessing nat
  | LogWillDownload nat int
  | LogWarning404 nat int int
  | LogErrorFailed nat int int
  | LogErrorStatus nat
  | LogErrorURL
  | LogErrorRequestHeaders
  | LogErrorResponseHeaders
  | LogAdded nat nat
  | LogWholeArea
  | LogShutdown
  | LogEnded nat

datatype event =
    EvLog logmsg
  | EvGet string nat int int
  | EvWriteTiles nat "Tile list"
  | EvWriteGlobalStatus Status
  | EvWriteMapStatus nat nat
  | EvMeta nat
  | EvCopy nat nat
  | EvSleep nat

text \<open>
  The surroundings and the constants of the CONFIG block. \<open>corner\<close> is the function the
  zoom loop calls on the two corners of the bounding box: \<open>deg2num\<close> of the script with the
  C library of the platform (\<open>corner_of lm\<close> below). The loops are stated for any such
  function, so what is proved of them does not depend on how the library rounds. It is a
  total function: a pass in which \<open>deg2num\<close> raises \<open>OverflowError\<close> (a zoom level from
  1024 on, or a tile number beyond the doubles) is not covered by the loops.
  \<open>http_get k\<close> is the status code and body of the request made as blocking call \<open>k\<close>,
  \<open>signal_at k\<close> says whether SIGINT or SIGTERM arrives during blocking call \<open>k\<close>, and
  \<open>status_files i\<close> is the pass counter in the status file of source \<open>i\<close> at the start,
  if that file exists. Every request returns a response: an exception raised by
  \<open>requests.get\<close> itself (no connection, a timeout) and a failing write to the database or
  to a file are not part of this model.
\<close>

record world =
  Maplist :: "mapsource list"
  WriteInterval :: nat
  corner :: "real \<Rightarrow> real \<Rightarrow> nat \<Rightarrow> int \<times> int"
  http_get :: "nat \<Rightarrow> nat \<times> string"
  signal_at :: "nat \<Rightarrow> bool"
  gzip_compress :: "string \<Rightarrow> string"
  status_files :: "nat \<Rightarrow> nat option"

record state =
  ServerPartNumber :: nat
  SessionTileCount :: nat
  TotalTileCount :: nat
  SourceCounter :: nat
  VectorTiles :: "Tile list"
  Run :: bool
  PickupStatus :: "Status option"
  PickupDone :: bool
  MapRun :: bool
  min_z :: nat
  FullLoops :: nat
  loopX :: "int option"
  loopY :: "int option"
  loopZ :: "nat option"
  StateFile :: "Status option"
  MapStatusFiles :: "nat \<Rightarrow> nat option"
  Clock :: nat
  Trace :: "event list"

section \<open>Procedures\<close>

text \<open>
  Python's \<open>float\<close> is the IEEE 754 double. \<open>rd x\<close> is the double nearest to the real
  number \<open>x\<close>, a tie going to the even significand: 53 significant bits in the binade of
  \<open>x\<close>, and the grid of \<open>2^-1074\<close> below \<open>2^-1022\<close>. The sum, difference, product and
  quotient of two doubles are the exact results rounded by \<open>rd\<close>. The exponent is not
  bounded above in \<open>rd\<close>: a result of magnitude \<open>2^1024\<close> or more is what the format
  holds as an infinity (\<open>is_inf\<close>).
\<close>

definition round_even :: "real \<Rightarrow> int" where
  "round_even y =
     (if y - of_int \<lfloor>y\<rfloor> < 1 / 2 then \<lfloor>y\<rfloor>
      else if 1 / 2 < y - of_int \<lfloor>y\<rfloor> then \<lfloor>y\<rfloor> + 1
      else if even \<lfloor>y\<rfloor> then \<lfloor>y\<rfloor> else \<lfloor>y\<rfloor> + 1)"

definition pow2 :: "int \<Rightarrow> real" where
  "pow2 e = (if 0 \<le> e then 2 ^ nat e else 1 / 2 ^ nat (- e))"

definition ulp :: "real \<Rightarrow> real" where
  "ulp x = pow2 (max \<lfloor>log 2 \<bar>x\<bar>\<rfloor> (- 1022) - 52)"

definition rd :: "real \<Rightarrow> real" where
  "rd x = (if x = 0 then 0 else of_int (round_even (x / ulp x)) * ulp x)"

definition is_inf :: "real \<Rightarrow> bool" where
  "is_inf x \<longleftrightarrow> pow2 1024 \<le> \<bar>x\<bar>"

text \<open>\<open>int()\<close> of a finite float truncates towards zero.\<close>

definition py_int :: "real \<Rightarrow> int" where
  "py_int r = (if r < 0 then \<lceil>r\<rceil> else \<lfloor>r\<rfloor>)"

text \<open>
  \<open>math.pi\<close> is the double nearest to \<open>\<pi>\<close>. \<open>math.tan\<close> and \<open>math.asinh\<close> return what the C
  library of the platform returns, which is not fixed to the last bit: the two functions
  are the fields of the record \<open>libm\<close>, a parameter of \<open>deg2num\<close>. \<open>exact_libm\<close> is the
  library that returns the exact values correctly rounded.
\<close>

definition math_pi :: real where
  "math_pi = 884279719003555 / 2 ^ 48"

record libm =
  c_tan :: "real \<Rightarrow> real"
  c_asinh :: "real \<Rightarrow> real"

definition exact_libm :: libm where
  "exact_libm = \<lparr>c_tan = (\<lambda>x. rd (tan x)), c_asinh = (\<lambda>x. rd (arsinh x))\<rparr>"

text \<open>
  \<open>deg2num\<close> (lines 82--87), on two finite doubles and a zoom level. \<open>math.radians(x)\<close> is
  the product of \<open>x\<close> and the double \<open>pi / 180\<close>. \<open>2.0 ** zoom\<close> raises \<open>OverflowError\<close>
  from zoom 1024 on, and \<open>int()\<close> raises it for an infinity, which only the two products
  by \<open>n\<close> can produce (an infinite product stays infinite when halved).
\<close>

definition deg2num :: "libm \<Rightarrow> real \<Rightarrow> real \<Rightarrow> nat \<Rightarrow> error + (int \<times> int)" where
  "deg2num lm lat_deg lon_deg zoom =
     (let lat_rad = rd (lat_deg * rd (math_pi / 180)) in
      if 1024 \<le> zoom then Inl OverflowError
      else
        let n = 2 ^ zoom;
            xtile = rd (rd (rd (lon_deg + 180) / 360) * n);
            p = rd (rd (1 - rd (c_asinh lm (c_tan lm lat_rad) / math_pi)) * n);
            ytile = (if is_inf p then p else rd (p / 2))
        in if is_inf xtile \<or> is_inf ytile then Inl OverflowError
           else Inr (py_int xtile, py_int ytile))"

text \<open>The pair of tile numbers \<open>deg2num\<close> returns, where it returns.\<close>

definition corner_of :: "libm \<Rightarrow> real \<Rightarrow> real \<Rightarrow> nat \<Rightarrow> int \<times> int" where
  "corner_of lm lat_deg lon_deg zoom = projr (deg2num lm lat_deg lon_deg zoom)"

text \<open>Lines 213--219: the rectangle \<open>(min_x, min_y, max_x, max_y)\<close> of a zoom level.\<close>

definition tile_rect ::
  "(real \<Rightarrow> real \<Rightarrow> nat \<Rightarrow> int \<times> int) \<Rightarrow> real \<times> real \<times> real \<times> real \<Rightarrow> nat \<Rightarrow> int \<times> int \<times> int \<times> int" where
  "tile_rect d2n bb zoom =
     (case bb of (b0, b1, b2, b3) \<Rightarrow>
        let LowerLeft = d2n b0 b1 zoom;
            UpperRight = d2n b2 b3 zoom
        in (fst LowerLeft, snd UpperRight, fst UpperRight, snd LowerLeft))"

definition Log :: "logmsg \<Rightarrow> state \<Rightarrow> state" where
  "Log msg s = s\<lparr>Trace := Trace s @ [EvLog msg]\<rparr>"

text \<open>\<open>WriteGlobalStatus\<close> (lines 89--97) rewrites the whole state file.\<close>

definition WriteGlobalStatus :: "nat \<Rightarrow> int \<Rightarrow> int \<Rightarrow> nat \<Rightarrow> nat \<Rightarrow> state \<Rightarrow> state" where
  "WriteGlobalStatus src x y z newtotal s =
     (let st = \<lparr>Source = src, StatusX = x, StatusY = y, StatusZ = z,
                StatusTotalTileCount = newtotal\<rparr>
      in s\<lparr>StateFile := Some st, Trace := Trace s @ [EvWriteGlobalStatus st]\<rparr>)"

definition WriteMapStatus :: "nat \<Rightarrow> nat \<Rightarrow> state \<Rightarrow> state" where
  "WriteMapStatus src loops s =
     s\<lparr>MapStatusFiles := (MapStatusFiles s)(src := Some loops),
       Trace := Trace s @ [EvWriteMapStatus src loops]\<rparr>"

text \<open>\<open>WriteToDB\<close> (lines 126--132): one \<open>write_tiles\<close>, one log line, and the new total.\<close>

definition WriteToDB :: "nat \<Rightarrow> Tile list \<Rightarrow> nat \<Rightarrow> state \<Rightarrow> nat \<times> state" where
  "WriteToDB db TileList newtotal s =
     (newtotal + length TileList,
      Log (LogAdded (length TileList) (newtotal + length TileList))
        (s\<lparr>Trace := Trace s @ [EvWriteTiles db TileList]\<rparr>))"

text \<open>A blocking call: the clock advances, and a signal delivered meanwhile clears \<open>Run\<close>.\<close>

definition blocking :: "world \<Rightarrow> event \<Rightarrow> state \<Rightarrow> state" where
  "blocking w ev s =
     s\<lparr>Run := (Run s \<and> \<not> signal_at w (Clock s)), Clock := Suc (Clock s),
       Trace := Trace s @ [ev]\<rparr>"

section \<open>The mirror rotation and one download attempt\<close>

text \<open>Lines 248--251. \<open>ServerParts[ServerPartNumber]\<close> raises for an index past the end.\<close>

definition next_server :: "string list \<Rightarrow> nat \<Rightarrow> error + (string \<times> nat)" where
  "next_server parts n =
     (if n < length parts
      then Inr (parts ! n, if Suc n = length parts then 0 else Suc n)
      else Inl IndexError)"

text \<open>Lines 256--266: the answer was 200.\<close>

definition flush_batch :: "int \<Rightarrow> int \<Rightarrow> nat \<Rightarrow> state \<Rightarrow> state" where
  "flush_batch Xv Yv Zv s =
     (case WriteToDB (SourceCounter s) (VectorTiles s) (TotalTileCount s) s of
        (newtotal, s1) \<Rightarrow>
          WriteGlobalStatus (SourceCounter s1) Xv Yv Zv newtotal
            (s1\<lparr>TotalTileCount := newtotal, VectorTiles := []\<rparr>))"

definition on_success :: "world \<Rightarrow> nat \<Rightarrow> int \<Rightarrow> int \<Rightarrow> string \<Rightarrow> state \<Rightarrow> state" where
  "on_success w Zv Xv Yv content s =
     (let TileData = gzip_compress w content;
          s1 = s\<lparr>VectorTiles := VectorTiles s @
                    [\<lparr>tile_z = Zv, tile_x = Xv, tile_y = (2 ^ Zv - 1) - Yv,
                      tile_data = TileData\<rparr>],
                 SessionTileCount := Suc (SessionTileCount s)\<rparr>
      in if length (VectorTiles s1) = WriteInterval w then flush_batch Xv Yv Zv s1 else s1)"

text \<open>Lines 271--279: the last retry of a tile failed with something other than 404. Five
  lines are logged: the tile, the status code, and the URL, the request headers and the
  response headers as the response object gives them.\<close>

definition on_failed :: "nat \<Rightarrow> int \<Rightarrow> int \<Rightarrow> nat \<Rightarrow> state \<Rightarrow> state" where
  "on_failed Zv Xv Yv code s =
     (Log LogErrorResponseHeaders (Log LogErrorRequestHeaders (Log LogErrorURL
        (Log (LogErrorStatus code) (Log (LogErrorFailed Zv Xv Yv) s)))))
       \<lparr>Run := False\<rparr>"

text \<open>Lines 256--279: the three branches on the status code. The result is the new
  \<open>RetryCounter\<close> and the new state.\<close>

definition handle_response ::
  "world \<Rightarrow> nat \<Rightarrow> nat \<Rightarrow> int \<Rightarrow> int \<Rightarrow> nat \<Rightarrow> nat \<times> string \<Rightarrow> state \<Rightarrow> nat \<times> state" where
  "handle_response w MaxRetries Zv Xv Yv RetryCounter TileDownload s =
     (if fst TileDownload = 200 then (MaxRetries, on_success w Zv Xv Yv (snd TileDownload) s)
      else if fst TileDownload = 404 then
        (Suc RetryCounter,
         if Suc RetryCounter = MaxRetries then Log (LogWarning404 Zv Xv Yv) s else s)
      else
        (Suc RetryCounter,
         if Suc RetryCounter = MaxRetries then on_failed Zv Xv Yv (fst TileDownload) s else s))"

text \<open>Lines 248--279: one pass through the body of the retry loop.\<close>

definition attempt ::
  "world \<Rightarrow> mapsource \<Rightarrow> nat \<Rightarrow> int \<Rightarrow> int \<Rightarrow> nat \<Rightarrow> state \<Rightarrow> (error \<times> state) + (nat \<times> state)" where
  "attempt w m Zv Xv Yv RetryCounter s =
     (case next_server (ServerParts m) (ServerPartNumber s) of
        Inl e \<Rightarrow> Inl (e, s)
      | Inr (ServerPart, n) \<Rightarrow>
          Inr (handle_response w (length (ServerParts m)) Zv Xv Yv RetryCounter
                 (http_get w (Clock s))
                 (blocking w (EvGet ServerPart Zv Xv Yv) (s\<lparr>ServerPartNumber := n\<rparr>))))"

lemma attempt_counter:
  "attempt w m Zv Xv Yv rc s = Inr (rc', s') \<Longrightarrow> rc < length (ServerParts m) \<Longrightarrow>
   rc < rc' \<and> rc' \<le> length (ServerParts m)"
  by (auto simp: attempt_def handle_response_def split: sum.splits prod.splits if_splits)

section \<open>The loops\<close>

text \<open>Lines 245--282: the retry loop of one tile. It ends when the counter reaches
  \<open>MaxRetries\<close> (the number of server parts, line 176) or \<open>Run\<close> is found cleared.\<close>

function retry_loop ::
  "world \<Rightarrow> mapsource \<Rightarrow> nat \<Rightarrow> int \<Rightarrow> int \<Rightarrow> nat \<Rightarrow> state \<Rightarrow> (error \<times> state) + state" where
  "retry_loop w m Zv Xv Yv RetryCounter s =
     (if RetryCounter < length (ServerParts m) then
        (case attempt w m Zv Xv Yv RetryCounter s of
           Inl e \<Rightarrow> Inl e
         | Inr (RetryCounter', s') \<Rightarrow>
             if \<not> Run s' then Inr s' else retry_loop w m Zv Xv Yv RetryCounter' s')
      else Inr s)"
  by pat_completeness auto
termination
  by (relation "measure (\<lambda>(w, m, Zv, Xv, Yv, rc, s). length (ServerParts m) - rc)")
     (auto dest: attempt_counter)

declare retry_loop.simps [simp del]

text \<open>Lines 243--287: the columns of one row, with the pause after each tile.\<close>

fun x_loop ::
  "world \<Rightarrow> mapsource \<Rightarrow> nat \<Rightarrow> int \<Rightarrow> int list \<Rightarrow> state \<Rightarrow> (error \<times> state) + state" where
  "x_loop w m Zv Yv [] s = Inr s"
| "x_loop w m Zv Yv (Xv # Xs) s =
     (case retry_loop w m Zv Xv Yv 0 (s\<lparr>loopX := Some Xv\<rparr>) of
        Inl e \<Rightarrow> Inl e
      | Inr s' \<Rightarrow>
          if Run s' then x_loop w m Zv Yv Xs (blocking w (EvSleep (SourceCounter s')) s')
          else Inr s')"

text \<open>Lines 237--241: where the row starts. Reading \<open>PickupStatus\<close> when no state file
  was found at the start would raise; it is read only while \<open>PickupDone\<close> is false.\<close>

definition start_x :: "int \<Rightarrow> state \<Rightarrow> (error \<times> state) + (int \<times> state)" where
  "start_x min_x s =
     (if PickupDone s then Inr (min_x, s)
      else (case PickupStatus s of
              None \<Rightarrow> Inl (NameError, s)
            | Some p \<Rightarrow> Inr (StatusX p, s\<lparr>PickupDone := True\<rparr>)))"

text \<open>Lines 235--290: the rows of one zoom level.\<close>

fun y_loop ::
  "world \<Rightarrow> mapsource \<Rightarrow> nat \<Rightarrow> int \<Rightarrow> int \<Rightarrow> int list \<Rightarrow> state \<Rightarrow> (error \<times> state) + state"
  where
  "y_loop w m Zv min_x max_x [] s = Inr s"
| "y_loop w m Zv min_x max_x (Yv # Ys) s =
     (case start_x min_x (s\<lparr>loopY := Some Yv\<rparr>) of
        Inl e \<Rightarrow> Inl e
      | Inr (StartX, s1) \<Rightarrow>
          (case x_loop w m Zv Yv [StartX..max_x] s1 of
             Inl e \<Rightarrow> Inl e
           | Inr s' \<Rightarrow> if \<not> Run s' then Inr s' else y_loop w m Zv min_x max_x Ys s'))"

text \<open>Lines 230--233.\<close>

definition start_y :: "int \<Rightarrow> state \<Rightarrow> (error \<times> state) + int" where
  "start_y min_y s =
     (if PickupDone s then Inr min_y
      else (case PickupStatus s of
              None \<Rightarrow> Inl (NameError, s)
            | Some p \<Rightarrow> Inr (StatusY p)))"

text \<open>Lines 212--228: the head of a zoom level: the rectangle, the state file, the log
  line. The zoom written to the state file is the variable \<open>min_z\<close>.\<close>

definition zoom_head :: "int \<times> int \<times> int \<times> int \<Rightarrow> nat \<Rightarrow> state \<Rightarrow> state" where
  "zoom_head rect Zv s =
     (case rect of (min_x, min_y, max_x, max_y) \<Rightarrow>
        Log (LogWillDownload Zv ((max_x - min_x + 1) * (max_y - min_y + 1)))
          (WriteGlobalStatus (SourceCounter s) min_x min_y (min_z s) (TotalTileCount s) s))"

text \<open>Lines 210--293: the zoom levels of one source.\<close>

fun z_loop :: "world \<Rightarrow> mapsource \<Rightarrow> nat list \<Rightarrow> state \<Rightarrow> (error \<times> state) + state" where
  "z_loop w m [] s = Inr s"
| "z_loop w m (Zv # Zs) s =
     (case tile_rect (corner w) (BoundingBox m) Zv of (min_x, min_y, max_x, max_y) \<Rightarrow>
        let s1 = zoom_head (min_x, min_y, max_x, max_y) Zv (s\<lparr>loopZ := Some Zv\<rparr>) in
        (case start_y min_y s1 of
           Inl e \<Rightarrow> Inl e
         | Inr StartY \<Rightarrow>
             (case y_loop w m Zv min_x max_x [StartY..max_y] s1 of
                Inl e \<Rightarrow> Inl e
              | Inr s' \<Rightarrow> if \<not> Run s' then Inr s' else z_loop w m Zs s')))"

section \<open>The end of a pass, the sources, the program\<close>

text \<open>Lines 296--300: what is still buffered goes to the database, and the state file
  takes the loop variables \<open>X\<close>, \<open>Y\<close>, \<open>Z\<close> as they stand.\<close>

definition final_flush :: "state \<Rightarrow> state" where
  "final_flush s =
     (if length (VectorTiles s) > 0 then
        (case WriteToDB (SourceCounter s) (VectorTiles s) (TotalTileCount s) s of
           (newtotal, s1) \<Rightarrow> s1\<lparr>TotalTileCount := newtotal\<rparr>)
      else s)"

definition final_status :: "state \<Rightarrow> (error \<times> state) + state" where
  "final_status s =
     (if SessionTileCount s > 0 then
        (case (loopX s, loopY s, loopZ s) of
           (Some Xv, Some Yv, Some Zv) \<Rightarrow>
             Inr (WriteGlobalStatus (SourceCounter s) Xv Yv Zv (TotalTileCount s) s)
         | _ \<Rightarrow> Inl (NameError, s))
      else Inr s)"

text \<open>Lines 302--314: a pass that was not interrupted is counted, the database is
  copied, and the next source is chosen.\<close>

definition count_pass :: "world \<Rightarrow> state \<Rightarrow> state" where
  "count_pass w s =
     (let loops = Suc (FullLoops s);
          s1 = WriteMapStatus (SourceCounter s) loops (s\<lparr>FullLoops := loops\<rparr>);
          s2 = blocking w (EvCopy (SourceCounter s1) loops) s1
      in Log LogWholeArea s2)"

definition next_source :: "world \<Rightarrow> state \<Rightarrow> state" where
  "next_source w s =
     (if Run s then
        (count_pass w s)
          \<lparr>SourceCounter := (if Suc (SourceCounter s) \<ge> length (Maplist w) then 0
                              else Suc (SourceCounter s)),
           TotalTileCount := 0, MapRun := False, PickupDone := True\<rparr>
      else s)"

text \<open>Lines 208--314: the body of the loop \<open>while (MapRun and Run)\<close>.\<close>

definition map_body :: "world \<Rightarrow> mapsource \<Rightarrow> state \<Rightarrow> (error \<times> state) + state" where
  "map_body w m s =
     (case z_loop w m [min_z s..<Suc (max_z m)] (Log (LogNowProcessing (SourceCounter s)) s) of
        Inl e \<Rightarrow> Inl e
      | Inr s1 \<Rightarrow>
          (case final_status (final_flush s1) of
             Inl e \<Rightarrow> Inl e
           | Inr s2 \<Rightarrow> Inr (next_source w (s2\<lparr>VectorTiles := []\<rparr>))))"

lemma next_source_stops: "\<not> (MapRun (next_source w s) \<and> Run (next_source w s))"
  by (simp add: next_source_def)

lemma map_body_stops: "map_body w m s = Inr s' \<Longrightarrow> \<not> (MapRun s' \<and> Run s')"
  using next_source_stops by (auto simp: map_body_def split: sum.splits)

function map_loop :: "world \<Rightarrow> mapsource \<Rightarrow> state \<Rightarrow> (error \<times> state) + state" where
  "map_loop w m s =
     (if MapRun s \<and> Run s then
        (case map_body w m s of Inl e \<Rightarrow> Inl e | Inr s' \<Rightarrow> map_loop w m s')
      else Inr s)"
  by pat_completeness auto
termination
  by (relation "measure (\<lambda>(w, m, s). if MapRun s \<and> Run s then 1 else 0)")
     (auto dest: map_body_stops)

declare map_loop.simps [simp del]

text \<open>Lines 158--206: the settings of the source \<open>SourceCounter\<close> are read, its pass
  counter is read from its status file, the metadata is written, and its pass is run.\<close>

definition source_setup :: "world \<Rightarrow> mapsource \<Rightarrow> state \<Rightarrow> state" where
  "source_setup w m s =
     (let s1 = s\<lparr>FullLoops := (case MapStatusFiles s (SourceCounter s) of
                                 Some n \<Rightarrow> n | None \<Rightarrow> 0)\<rparr>;
          s2 = (if PickupDone s1 then s1\<lparr>min_z := min_z0 m\<rparr> else s1)
      in blocking w (EvMeta (SourceCounter s2)) (s2\<lparr>MapRun := True\<rparr>))"

definition source_pass :: "world \<Rightarrow> state \<Rightarrow> (error \<times> state) + state" where
  "source_pass w s =
     (if SourceCounter s < length (Maplist w)
      then map_loop w (Maplist w ! SourceCounter s)
             (source_setup w (Maplist w ! SourceCounter s) s)
      else Inl (IndexError, s))"

text \<open>Lines 61--75 and 140--154: the start. The argument is the content of the state
  file, if there is one.\<close>

definition initial :: "world \<Rightarrow> state" where
  "initial w =
     \<lparr>ServerPartNumber = 0, SessionTileCount = 0, TotalTileCount = 0, SourceCounter = 0,
      VectorTiles = [], Run = True, PickupStatus = None, PickupDone = True, MapRun = True,
      min_z = 0, FullLoops = 0, loopX = None, loopY = None, loopZ = None,
      StateFile = None, MapStatusFiles = status_files w, Clock = 0, Trace = [EvLog LogStart]\<rparr>"

definition startup :: "world \<Rightarrow> Status option \<Rightarrow> (error \<times> state) + state" where
  "startup w file =
     (case file of
        None \<Rightarrow> Inr (initial w)
      | Some p \<Rightarrow>
          if Source p < length (Maplist w)
          then Inr ((Log (LogPickUp p) (initial w))
                 \<lparr>StateFile := Some p, PickupStatus := Some p, min_z := StatusZ p,
                  TotalTileCount := StatusTotalTileCount p, SourceCounter := Source p,
                  PickupDone := (StatusX p = 0), MapRun := True\<rparr>)
          else Inl (IndexError, (initial w)\<lparr>StateFile := Some p, PickupStatus := Some p\<rparr>))"

text \<open>Lines 156--317. The loop \<open>while Run\<close> has no bound of its own: it ends when a
  signal or a failed tile clears \<open>Run\<close>, or with an exception. The first argument bounds
  the number of passes; \<open>None\<close> says that the bound was reached with \<open>Run\<close> still set.\<close>

fun main_loop :: "nat \<Rightarrow> world \<Rightarrow> state \<Rightarrow> ((error \<times> state) + state) option" where
  "main_loop n w s =
     (if Run s then
        (case n of
           0 \<Rightarrow> None
         | Suc k \<Rightarrow> (case source_pass w s of
                      Inl e \<Rightarrow> Some (Inl e)
                    | Inr s' \<Rightarrow> main_loop k w s'))
      else Some (Inr (Log (LogEnded (SessionTileCount s)) (Log LogShutdown s))))"

declare main_loop.simps [simp del]

definition program ::
  "nat \<Rightarrow> world \<Rightarrow> Status option \<Rightarrow> ((error \<times> state) + state) option" where
  "program n w file =
     (case startup w file of Inl e \<Rightarrow> Some (Inl e) | Inr s \<Rightarrow> main_loop n w s)"

section \<open>The rotation over the server parts\<close>

text \<open>\<open>next_servers parts n i\<close> runs the rotation of lines 248--251 \<open>n\<close> times from the
  index \<open>i\<close>, and returns the server parts it handed out and the index it left.\<close>

fun next_servers :: "string list \<Rightarrow> nat \<Rightarrow> nat \<Rightarrow> error + (string list \<times> nat)" where
  "next_servers parts 0 i = Inr ([], i)"
| "next_servers parts (Suc k) i =
     (case next_server parts i of
        Inl e \<Rightarrow> Inl e
      | Inr (p, i') \<Rightarrow>
          (case next_servers parts k i' of
             Inl e \<Rightarrow> Inl e
           | Inr (ps, i'') \<Rightarrow> Inr (p # ps, i'')))"

lemma next_server_mod:
  "i < length parts \<Longrightarrow> next_server parts i = Inr (parts ! i, Suc i mod length parts)"
  by (auto simp: next_server_def mod_Suc)

lemma next_servers_nth:
  "i < length parts \<Longrightarrow>
   next_servers parts n i =
     Inr (map (\<lambda>j. parts ! ((i + j) mod length parts)) [0..<n], (i + n) mod length parts)"
proof (induction n arbitrary: i)
  case 0
  then show ?case by simp
next
  case (Suc n)
  let ?M = "length parts"
  have lt: "Suc i mod ?M < ?M"
    using Suc.prems by (intro mod_less_divisor) auto
  have "parts ! i # map (\<lambda>j. parts ! ((Suc i mod ?M + j) mod ?M)) [0..<n] =
        map (\<lambda>j. parts ! ((i + j) mod ?M)) [0..<Suc n]"
  proof (rule nth_equalityI)
    show "length (parts ! i # map (\<lambda>j. parts ! ((Suc i mod ?M + j) mod ?M)) [0..<n]) =
          length (map (\<lambda>j. parts ! ((i + j) mod ?M)) [0..<Suc n])"
      by simp
  next
    fix k
    assume "k < length (parts ! i # map (\<lambda>j. parts ! ((Suc i mod ?M + j) mod ?M)) [0..<n])"
    then have k: "k < Suc n" by simp
    show "(parts ! i # map (\<lambda>j. parts ! ((Suc i mod ?M + j) mod ?M)) [0..<n]) ! k =
          map (\<lambda>j. parts ! ((i + j) mod ?M)) [0..<Suc n] ! k"
    proof (cases k)
      case 0
      then show ?thesis using Suc.prems by (simp add: nth_append)
    next
      case (Suc k')
      then have "k' < n" using k by simp
      moreover have "(Suc i mod ?M + k') mod ?M = (i + Suc k') mod ?M"
        by (simp add: mod_add_left_eq)
      ultimately show ?thesis
        using Suc k nth_map_upt [of k "Suc n" 0 "\<lambda>j. parts ! ((i + j) mod ?M)"]
        by simp
    qed
  qed
  moreover have "(Suc i mod ?M + n) mod ?M = (i + Suc n) mod ?M"
    by (simp add: mod_add_left_eq)
  ultimately show ?case
    using Suc.prems by (simp add: next_server_mod Suc.IH [OF lt] del: upt_Suc)
qed

lemma cycle_rotate:
  "i < length parts \<Longrightarrow>
   map (\<lambda>j. parts ! ((i + j) mod length parts)) [0..<length parts] = rotate i parts"
  by (rule nth_equalityI) (simp_all add: nth_rotate)

lemma rounds:
  "map (\<lambda>j. f ((i + j) mod M)) [0..<k * M] =
    concat (replicate k (map (\<lambda>j. f ((i + j) mod M)) [0..<M]))"
proof (induction k)
  case 0
  show ?case by simp
next
  case (Suc k)
  have "[0..<k * M + M] = [0..<k * M] @ [k * M..<k * M + M]"
    by (rule upt_add_eq_append) simp
  moreover have "[k * M..<k * M + M] = map (\<lambda>j. j + k * M) [0..<M]"
    by (simp add: map_add_upt add.commute)
  ultimately have split: "[0..<k * M + M] = [0..<k * M] @ map (\<lambda>j. j + k * M) [0..<M]"
    by simp
  have shift: "\<And>j. (i + (j + k * M)) mod M = (i + j) mod M"
    by (metis add.assoc mod_mult_self1)
  have "map (\<lambda>j. f ((i + j) mod M)) [0..<k * M + M] =
        concat (replicate k (map (\<lambda>j. f ((i + j) mod M)) [0..<M])) @
        map (\<lambda>j. f ((i + j) mod M)) [0..<M]"
    unfolding split using Suc by (simp add: comp_def shift)
  moreover have "concat (replicate (Suc k) (map (\<lambda>j. f ((i + j) mod M)) [0..<M])) =
      concat (replicate k (map (\<lambda>j. f ((i + j) mod M)) [0..<M])) @
      map (\<lambda>j. f ((i + j) mod M)) [0..<M]"
    by (induction k) simp_all
  moreover have "Suc k * M = k * M + M" by simp
  ultimately show ?case by (simp only:)
qed

lemma count_rounds: "count_list (concat (replicate k xs)) x = k * count_list xs x"
  by (induction k) simp_all

lemma count_rotate: "count_list (rotate i xs) x = count_list xs x"
proof -
  have "count_list (take (i mod length xs) xs @ drop (i mod length xs) xs) x = count_list xs x"
    by simp
  then show ?thesis
    by (simp add: rotate_drop_take del: append_take_drop_id)
qed

section \<open>Double precision arithmetic\<close>

text \<open>Rounding to the nearest double: the format's own numbers are fixed points, and the
  rounding never reverses an order. Enclosures between two numbers of the format follow.\<close>

lemma round_even_of_int [simp]: "round_even (of_int k) = k"
  by (simp add: round_even_def)

lemma round_even_bounds: "\<lfloor>y\<rfloor> \<le> round_even y" "round_even y \<le> \<lfloor>y\<rfloor> + 1"
  by (simp_all add: round_even_def)

lemma round_even_mono: "x \<le> y \<Longrightarrow> round_even x \<le> round_even y"
proof -
  assume xy: "x \<le> y"
  then have f: "\<lfloor>x\<rfloor> \<le> \<lfloor>y\<rfloor>" by (rule floor_mono)
  show ?thesis
  proof (cases "\<lfloor>x\<rfloor> = \<lfloor>y\<rfloor>")
    case True
    then show ?thesis using xy by (auto simp: round_even_def)
  next
    case False
    then have "\<lfloor>x\<rfloor> + 1 \<le> \<lfloor>y\<rfloor>" using f by simp
    then show ?thesis
      using round_even_bounds(2) [of x] round_even_bounds(1) [of y] by linarith
  qed
qed

lemma round_even_minus: "round_even (- y) = - round_even y"
proof (cases "y = of_int \<lfloor>y\<rfloor>")
  case True
  then obtain k where "y = of_int k" ..
  then have "- y = of_int (- k)" by simp
  then show ?thesis using \<open>y = of_int k\<close> by (simp only: round_even_of_int)
next
  case False
  then have lt: "of_int \<lfloor>y\<rfloor> < y"
    using of_int_floor_le [of y] by (metis less_le)
  have fl: "\<lfloor>- y\<rfloor> = - \<lfloor>y\<rfloor> - 1"
  proof (rule floor_unique)
    have e: "real_of_int (- \<lfloor>y\<rfloor> - 1) = - real_of_int \<lfloor>y\<rfloor> - 1" by simp
    have "y < of_int \<lfloor>y\<rfloor> + 1" by linarith
    then show "of_int (- \<lfloor>y\<rfloor> - 1) \<le> - y" unfolding e by linarith
    show "- y < of_int (- \<lfloor>y\<rfloor> - 1) + 1" unfolding e using lt by linarith
  qed
  show ?thesis
    unfolding round_even_def fl using lt by (auto simp: algebra_simps)
qed

lemma pow2_powr: "pow2 e = 2 powr of_int e"
proof (cases "0 \<le> e")
  case True
  then show ?thesis
    by (simp add: pow2_def powr_realpow [symmetric])
next
  case False
  have a: "(2::real) powr real (nat (- e)) = 2 ^ nat (- e)"
    by (simp add: powr_realpow)
  have b: "real_of_int e = - real (nat (- e))"
    using False by simp
  have "2 powr real_of_int e = inverse (2 powr real (nat (- e)))"
    unfolding b by (rule powr_minus)
  then show ?thesis
    unfolding a using False by (simp add: pow2_def inverse_eq_divide)
qed

lemma pow2_pos [simp]: "0 < pow2 e"
  by (simp add: pow2_powr)

lemma pow2_nz [simp]: "pow2 e \<noteq> 0"
  using pow2_pos [of e] by linarith

lemma pow2_ge0 [simp]: "0 \<le> pow2 e" "\<not> pow2 e \<le> 0" "\<bar>pow2 e\<bar> = pow2 e"
  using pow2_pos [of e] by linarith+

lemma pow2_add: "pow2 (a + b) = pow2 a * pow2 b"
  by (simp add: pow2_powr powr_add)

lemma pow2_mono: "a \<le> b \<Longrightarrow> pow2 a \<le> pow2 b"
  by (simp add: pow2_powr)

lemma pow2_nat: "pow2 (int n) = 2 ^ n"
  by (simp add: pow2_def)

lemma pow2_0 [simp]: "pow2 0 = 1"
  by (simp add: pow2_def)

lemma pow2_diff: "pow2 (a - b) = pow2 a / pow2 b"
  using pow2_add [of "a - b" b] by (simp add: field_simps)

lemma binade:
  assumes "x \<noteq> 0"
  shows "pow2 \<lfloor>log 2 \<bar>x\<bar>\<rfloor> \<le> \<bar>x\<bar>" "\<bar>x\<bar> < pow2 (\<lfloor>log 2 \<bar>x\<bar>\<rfloor> + 1)"
  using floor_log_eq_powr_iff [of "\<bar>x\<bar>" 2 "\<lfloor>log 2 \<bar>x\<bar>\<rfloor>"] assms
  by (auto simp: pow2_powr)

lemma floor_log2:
  assumes "pow2 e \<le> \<bar>x\<bar>" "\<bar>x\<bar> < pow2 (e + 1)"
  shows "\<lfloor>log 2 \<bar>x\<bar>\<rfloor> = e"
proof -
  have "0 < \<bar>x\<bar>" using assms(1) pow2_pos [of e] by linarith
  then show ?thesis
    using floor_log_eq_powr_iff [of "\<bar>x\<bar>" 2 e] assms by (simp add: pow2_powr)
qed

lemma ulp_pos [simp]: "0 < ulp x"
  by (simp add: ulp_def)

lemma ulp_minus [simp]: "ulp (- x) = ulp x"
  by (simp add: ulp_def)

lemma rd_0 [simp]: "rd 0 = 0"
  by (simp add: rd_def)

lemma rd_minus: "rd (- x) = - rd x"
  by (simp add: rd_def round_even_minus)

lemma rd_binade:
  assumes "pow2 e \<le> \<bar>x\<bar>" "\<bar>x\<bar> < pow2 (e + 1)" "- 1022 \<le> e"
  shows "rd x = of_int (round_even (x / pow2 (e - 52))) * pow2 (e - 52)"
proof -
  have "x \<noteq> 0" using assms(1) pow2_pos [of e] by auto
  moreover have "ulp x = pow2 (e - 52)"
    using floor_log2 [OF assms(1,2)] assms(3) by (simp add: ulp_def max_def)
  ultimately show ?thesis by (simp add: rd_def)
qed

text \<open>Every number of the format is a fixed point.\<close>

lemma rd_exact:
  assumes k: "\<bar>k\<bar> < 2 ^ 53" and j: "- 1074 \<le> j"
  shows "rd (of_int k * pow2 j) = of_int k * pow2 j"
proof (cases "k = 0")
  case True
  then show ?thesis by simp
next
  case False
  define x where "x = of_int k * pow2 j"
  define E where "E = max \<lfloor>log 2 \<bar>x\<bar>\<rfloor> (- 1022) - 52"
  define n where "n = nat (j - E)"
  have x0: "x \<noteq> 0" using False by (simp add: x_def)
  have "\<bar>x\<bar> = of_int \<bar>k\<bar> * pow2 j" by (simp add: x_def abs_mult)
  also have "\<dots> < 2 ^ 53 * pow2 j"
  proof -
    have "real_of_int \<bar>k\<bar> < 2 ^ 53" using k by (metis of_int_less_numeral_power_cancel_iff)
    then show ?thesis by simp
  qed
  also have "\<dots> = pow2 53 * pow2 j" using pow2_nat [of 53] by simp
  also have "\<dots> = pow2 (53 + j)" by (simp add: pow2_add)
  finally have "pow2 \<lfloor>log 2 \<bar>x\<bar>\<rfloor> < pow2 (53 + j)"
    using binade(1) [OF x0] by linarith
  then have "\<lfloor>log 2 \<bar>x\<bar>\<rfloor> < 53 + j" by (simp add: pow2_powr)
  then have E: "E \<le> j" using j by (simp add: E_def)
  have u: "ulp x = pow2 E" by (simp add: ulp_def E_def)
  have "pow2 j = pow2 (j - E) * pow2 E"
    using pow2_add [of "j - E" E] by simp
  moreover have "pow2 (j - E) = 2 ^ n"
    using E by (simp add: pow2_def n_def)
  ultimately have pj: "pow2 j = 2 ^ n * pow2 E" by simp
  have q: "x / pow2 E = of_int (k * 2 ^ n)"
    unfolding x_def pj by simp
  then have "round_even (x / ulp x) = k * 2 ^ n"
    unfolding u by (simp only: round_even_of_int)
  then have "rd x = of_int (k * 2 ^ n) * pow2 E"
    using x0 u by (simp add: rd_def)
  also have "\<dots> = x"
    unfolding q [symmetric] by simp
  finally show ?thesis by (simp add: x_def)
qed

lemma ulp_nonneg [simp]: "0 \<le> ulp x"
  using ulp_pos [of x] by linarith

lemma rd_nonneg: "0 \<le> x \<Longrightarrow> 0 \<le> rd x"
proof -
  assume "0 \<le> x"
  then have "0 / ulp x \<le> x / ulp x" by (intro divide_right_mono) simp_all
  then have "round_even 0 \<le> round_even (x / ulp x)" by (intro round_even_mono) simp
  then have "0 \<le> round_even (x / ulp x)" using round_even_of_int [of 0] by simp
  then show ?thesis by (simp add: rd_def)
qed

lemma rd_pos_mono:
  assumes "0 < x" "x \<le> y"
  shows "rd x \<le> rd y"
proof -
  define ex where "ex = max \<lfloor>log 2 \<bar>x\<bar>\<rfloor> (- 1022)"
  define ey where "ey = max \<lfloor>log 2 \<bar>y\<bar>\<rfloor> (- 1022)"
  have x0: "x \<noteq> 0" and y0: "y \<noteq> 0" and ypos: "0 < y" using assms by auto
  have ux: "ulp x = pow2 (ex - 52)" and uy: "ulp y = pow2 (ey - 52)"
    by (simp_all add: ulp_def ex_def ey_def)
  have rx: "rd x = of_int (round_even (x / pow2 (ex - 52))) * pow2 (ex - 52)"
    and ry: "rd y = of_int (round_even (y / pow2 (ey - 52))) * pow2 (ey - 52)"
    using x0 y0 by (simp_all add: rd_def ux uy)
  have "log 2 \<bar>x\<bar> \<le> log 2 \<bar>y\<bar>" using assms by simp
  then have "\<lfloor>log 2 \<bar>x\<bar>\<rfloor> \<le> \<lfloor>log 2 \<bar>y\<bar>\<rfloor>" by (rule floor_mono)
  then have le: "ex \<le> ey" by (simp add: ex_def ey_def)
  show ?thesis
  proof (cases "ex = ey")
    case True
    have "x / pow2 (ey - 52) \<le> y / pow2 (ey - 52)"
      using assms by (intro divide_right_mono) simp_all
    then have "round_even (x / pow2 (ey - 52)) \<le> round_even (y / pow2 (ey - 52))"
      by (rule round_even_mono)
    then show ?thesis unfolding rx ry True by (simp add: mult_right_mono)
  next
    case False
    then have lt: "ex + 1 \<le> ey" using le by simp
    define fy where "fy = \<lfloor>log 2 \<bar>y\<bar>\<rfloor>"
    have "- 1022 \<le> ex" by (simp add: ex_def)
    then have "- 1022 < ey" using lt by linarith
    moreover have "ey = max fy (- 1022)" by (simp add: ey_def fy_def)
    ultimately have "ey = fy" by (simp add: max_def split: if_splits)
    then have eyf: "ey = \<lfloor>log 2 \<bar>y\<bar>\<rfloor>" by (simp add: fy_def)
    have "pow2 ey \<le> y" using binade(1) [OF y0] ypos by (simp add: eyf)
    then have "pow2 ey / pow2 (ey - 52) \<le> y / pow2 (ey - 52)"
      by (intro divide_right_mono) simp_all
    moreover have "pow2 ey / pow2 (ey - 52) = of_int (2 ^ 52)"
      using pow2_diff [of ey "ey - 52"] pow2_nat [of 52] by simp
    ultimately have "round_even (of_int (2 ^ 52)) \<le> round_even (y / pow2 (ey - 52))"
      by (intro round_even_mono) simp
    then have "2 ^ 52 \<le> round_even (y / pow2 (ey - 52))"
      by (simp only: round_even_of_int)
    then have "(2 ^ 52) * pow2 (ey - 52) \<le> rd y"
      unfolding ry by (intro mult_right_mono) (simp_all add: of_int_le_iff [symmetric] del: of_int_le_iff)
    moreover have "(2 ^ 52) * pow2 (ey - 52) = pow2 ey"
      using pow2_add [of 52 "ey - 52"] pow2_nat [of 52] by simp
    ultimately have low: "pow2 ey \<le> rd y" by simp
    have "x < pow2 (\<lfloor>log 2 \<bar>x\<bar>\<rfloor> + 1)" using binade(2) [OF x0] assms by simp
    also have "\<dots> \<le> pow2 (ex + 1)" by (intro pow2_mono) (simp add: ex_def)
    finally have "x \<le> pow2 (ex + 1)" by simp
    then have "x / pow2 (ex - 52) \<le> pow2 (ex + 1) / pow2 (ex - 52)"
      by (intro divide_right_mono) simp_all
    moreover have "pow2 (ex + 1) / pow2 (ex - 52) = of_int (2 ^ 53)"
      using pow2_diff [of "ex + 1" "ex - 52"] pow2_nat [of 53] by simp
    ultimately have "round_even (x / pow2 (ex - 52)) \<le> round_even (of_int (2 ^ 53))"
      by (intro round_even_mono) simp
    then have "round_even (x / pow2 (ex - 52)) \<le> 2 ^ 53"
      by (simp only: round_even_of_int)
    then have "rd x \<le> (2 ^ 53) * pow2 (ex - 52)"
      unfolding rx by (intro mult_right_mono) (simp_all add: of_int_le_iff [symmetric] del: of_int_le_iff)
    moreover have "(2 ^ 53) * pow2 (ex - 52) = pow2 (ex + 1)"
      using pow2_add [of 53 "ex - 52"] pow2_nat [of 53] by (simp add: add.commute)
    ultimately have "rd x \<le> pow2 (ex + 1)" by simp
    also have "\<dots> \<le> pow2 ey" using lt by (rule pow2_mono)
    finally show ?thesis using low by linarith
  qed
qed

text \<open>Rounding to nearest never reverses an order.\<close>

lemma rd_mono: "x \<le> y \<Longrightarrow> rd x \<le> rd y"
proof -
  assume xy: "x \<le> y"
  consider "0 < x" | "x = 0" | "x < 0" "0 \<le> y" | "x < 0" "y < 0" by linarith
  then show ?thesis
  proof cases
    case 1
    then show ?thesis using xy by (rule rd_pos_mono)
  next
    case 2
    then show ?thesis using xy rd_nonneg [of y] by simp
  next
    case 3
    then have "0 \<le> rd (- x)" by (intro rd_nonneg) simp
    then show ?thesis using rd_nonneg [OF 3(2)] by (simp add: rd_minus)
  next
    case 4
    then have "rd (- y) \<le> rd (- x)" using xy by (intro rd_pos_mono) simp_all
    then show ?thesis by (simp add: rd_minus)
  qed
qed

lemma rd_dyadic:
  assumes "\<bar>k\<bar> < 2 ^ 53" "n \<le> 1074"
  shows "rd (of_int k / 2 ^ n) = of_int k / 2 ^ n"
proof -
  have "pow2 (- int n) = 1 / 2 ^ n"
    using pow2_diff [of 0 "int n"] by (simp add: pow2_nat)
  then show ?thesis
    using rd_exact [of k "- int n"] assms by simp
qed

lemma rd_le: "x \<le> of_int k / 2 ^ n \<Longrightarrow> \<bar>k\<bar> < 2 ^ 53 \<Longrightarrow> n \<le> 1074 \<Longrightarrow> rd x \<le> of_int k / 2 ^ n"
  using rd_mono [of x "of_int k / 2 ^ n"] by (simp add: rd_dyadic)

lemma rd_ge: "of_int k / 2 ^ n \<le> x \<Longrightarrow> \<bar>k\<bar> < 2 ^ 53 \<Longrightarrow> n \<le> 1074 \<Longrightarrow> of_int k / 2 ^ n \<le> rd x"
  using rd_mono [of "of_int k / 2 ^ n" x] by (simp add: rd_dyadic)

lemma rd_int: "\<bar>k\<bar> < 2 ^ 53 \<Longrightarrow> rd (of_int k) = of_int k"
  using rd_dyadic [of k 0] by simp

lemma not_inf: "\<bar>x\<bar> \<le> 2 ^ 53 \<Longrightarrow> \<not> is_inf x"
proof -
  assume "\<bar>x\<bar> \<le> 2 ^ 53"
  moreover have "(2::real) ^ 53 < pow2 1024"
    using pow2_nat [of 53] by (simp add: pow2_powr)
  ultimately show ?thesis by (simp add: is_inf_def)
qed

lemma py_int_unit: "- 1 < r \<Longrightarrow> r < 1 \<Longrightarrow> py_int r = 0"
  by (auto simp: py_int_def floor_eq_iff ceiling_eq_iff)

lemma round_even_down: "of_int m \<le> y \<Longrightarrow> y < of_int m + 1 / 2 \<Longrightarrow> round_even y = m"
proof -
  assume a: "of_int m \<le> y" "y < of_int m + 1 / 2"
  then have "\<lfloor>y\<rfloor> = m" by (intro floor_unique) simp_all
  then show ?thesis using a by (simp add: round_even_def)
qed

text \<open>The sum \<open>lon + 180.0\<close> for a longitude below \<open>180 - 2^-45\<close> stays below 360.\<close>

lemma lon_sum:
  assumes "- 180 \<le> lon" "lon < 180 - 1 / 2 ^ 45"
  shows "0 \<le> rd (lon + 180) \<and> rd (lon + 180) \<le> 360 - 1 / 2 ^ 44"
proof -
  let ?t = "lon + 180"
  have lo: "0 \<le> rd ?t" using assms by (intro rd_nonneg) simp
  have hi: "rd ?t \<le> 360 - 1 / 2 ^ 44"
  proof (cases "?t \<le> 360 - 1 / 2 ^ 44")
    case True
    then show ?thesis
      using rd_le [of ?t "360 * 2 ^ 44 - 1" 44] by (simp add: field_simps)
  next
    case False
    then have a: "360 - 1 / 2 ^ 44 < ?t" by simp
    have b: "?t < 360 - 1 / 2 ^ 45" using assms by simp
    have "pow2 8 \<le> \<bar>?t\<bar>" "\<bar>?t\<bar> < pow2 (8 + 1)"
      using a b by (simp_all add: pow2_def)
    then have r: "rd ?t = of_int (round_even (?t / pow2 (8 - 52))) * pow2 (8 - 52)"
      by (rule rd_binade) simp
    have "round_even (?t * 2 ^ 44) = 360 * 2 ^ 44 - 1"
      using a b by (intro round_even_down) (simp_all add: field_simps)
    then show ?thesis
      unfolding r by (simp add: pow2_def)
  qed
  show ?thesis using lo hi ..
qed

lemma xtile_zoom0:
  assumes "- 180 \<le> lon" "lon < 180 - 1 / 2 ^ 45"
  shows "0 \<le> rd (rd (rd (lon + 180) / 360) * 2 ^ 0) \<and> rd (rd (rd (lon + 180) / 360) * 2 ^ 0) < 1"
proof -
  let ?a = "rd (lon + 180)"
  have a: "0 \<le> ?a" "?a \<le> 360 - 1 / 2 ^ 44"
    using lon_sum [OF assms] by simp_all
  have "?a / 360 \<le> 1 - 1 / 2 ^ 53" using a(2) by simp
  then have b: "rd (?a / 360) \<le> 1 - 1 / 2 ^ 53"
    using rd_le [of "?a / 360" "2 ^ 53 - 1" 53] by (simp add: field_simps)
  have b0: "0 \<le> rd (?a / 360)" using a(1) by (intro rd_nonneg) simp
  have "rd (rd (?a / 360) * 2 ^ 0) \<le> 1 - 1 / 2 ^ 53"
    using rd_le [of "rd (?a / 360)" "2 ^ 53 - 1" 53] b by (simp add: field_simps)
  moreover have "0 \<le> rd (rd (?a / 360) * 2 ^ 0)"
    using b0 by (intro rd_nonneg) simp
  ultimately show ?thesis by simp
qed

lemma xtile_east:
  "rd (rd (rd (180 + 180) / 360) * 2 ^ 0) = 1"
  "rd (rd (rd (180 - 1 / 2 ^ 45 + 180) / 360) * 2 ^ 0) = 1"
proof -
  have i: "rd 360 = 360" "rd 1 = 1" using rd_int [of 360] rd_int [of 1] by simp_all
  show "rd (rd (rd (180 + 180) / 360) * 2 ^ 0) = 1" by (simp add: i)
  let ?t = "180 - 1 / 2 ^ 45 + 180 :: real"
  have "pow2 8 \<le> \<bar>?t\<bar>" "\<bar>?t\<bar> < pow2 (8 + 1)"
    by (simp_all add: pow2_def)
  then have r: "rd ?t = of_int (round_even (?t / pow2 (8 - 52))) * pow2 (8 - 52)"
    by (rule rd_binade) simp
  have "?t / pow2 (8 - 52) = of_int (360 * 2 ^ 44 - 1) + 1 / 2"
    by (simp add: pow2_def)
  moreover have "round_even (of_int (360 * 2 ^ 44 - 1) + 1 / 2) = 360 * 2 ^ 44"
    by (simp add: round_even_def)
  ultimately have "rd ?t = 360" unfolding r by (simp add: pow2_def)
  then show "rd (rd (rd ?t / 360) * 2 ^ 0) = 1" by (simp add: i)
qed

lemma ytile_zoom0:
  assumes "\<bar>v\<bar> \<le> 314159 / 100000"
  shows "1 / 2 ^ 22 \<le> rd (rd (rd (1 - rd (v / math_pi)) * 2 ^ 0) / 2)
       \<and> rd (rd (rd (1 - rd (v / math_pi)) * 2 ^ 0) / 2) \<le> 1 - 1 / 2 ^ 22
       \<and> \<not> is_inf (rd (rd (1 - rd (v / math_pi)) * 2 ^ 0))"
proof -
  let ?q = "rd (v / math_pi)"
  have "- (314159 / 100000) \<le> v" "v \<le> 314159 / 100000" using assms by (simp_all add: abs_le_iff)
  then have "- (1 - 1 / 2 ^ 21) \<le> v / math_pi" "v / math_pi \<le> 1 - 1 / 2 ^ 21"
    by (simp_all add: math_pi_def field_simps)
  then have q: "- (1 - 1 / 2 ^ 21) \<le> ?q" "?q \<le> 1 - 1 / 2 ^ 21"
    using rd_ge [of "- (2 ^ 21 - 1)" 21 "v / math_pi"] rd_le [of "v / math_pi" "2 ^ 21 - 1" 21]
    by (simp_all add: field_simps)
  have r: "1 / 2 ^ 21 \<le> rd (1 - ?q)" "rd (1 - ?q) \<le> 2 - 1 / 2 ^ 21"
    using rd_ge [of 1 21 "1 - ?q"] rd_le [of "1 - ?q" "2 ^ 22 - 1" 21] q
    by (simp_all add: field_simps)
  let ?p = "rd (rd (1 - ?q) * 2 ^ 0)"
  have p: "1 / 2 ^ 21 \<le> ?p" "?p \<le> 2 - 1 / 2 ^ 21"
    using rd_ge [of 1 21 "rd (1 - ?q)"] rd_le [of "rd (1 - ?q)" "2 ^ 22 - 1" 21] r
    by (simp_all add: field_simps)
  have y: "1 / 2 ^ 22 \<le> rd (?p / 2)" "rd (?p / 2) \<le> 1 - 1 / 2 ^ 22"
    using rd_ge [of 1 22 "?p / 2"] rd_le [of "?p / 2" "2 ^ 22 - 1" 22] p
    by (simp_all add: field_simps)
  have "\<not> is_inf ?p" using p by (intro not_inf) (simp add: abs_le_iff)
  then show ?thesis using y by simp
qed

lemma deg2num_zoom0:
  assumes "- 180 \<le> lon" "lon < 180 - 1 / 2 ^ 45"
    and "\<bar>c_asinh lm (c_tan lm (rd (lat * rd (math_pi / 180))))\<bar> \<le> 314159 / 100000"
  shows "deg2num lm lat lon 0 = Inr (0, 0)"
proof -
  let ?x = "rd (rd (rd (lon + 180) / 360) * 2 ^ 0)"
  let ?v = "c_asinh lm (c_tan lm (rd (lat * rd (math_pi / 180))))"
  let ?p = "rd (rd (1 - rd (?v / math_pi)) * 2 ^ 0)"
  have x: "0 \<le> ?x" "?x < 1" using xtile_zoom0 [OF assms(1,2)] by simp_all
  have y: "1 / 2 ^ 22 \<le> rd (?p / 2)" "rd (?p / 2) \<le> 1 - 1 / 2 ^ 22" "\<not> is_inf ?p"
    using ytile_zoom0 [OF assms(3)] by simp_all
  have "\<not> is_inf ?x" using x by (intro not_inf) simp
  moreover have "\<not> is_inf (rd (?p / 2))" using y by (intro not_inf) (simp add: abs_le_iff)
  moreover have "py_int ?x = 0" using x by (intro py_int_unit) simp_all
  moreover have "py_int (rd (?p / 2)) = 0" using y by (intro py_int_unit) simp_all
  ultimately show ?thesis
    using y(3) unfolding deg2num_def Let_def by simp
qed

lemma deg2num_east:
  assumes "lon = 180 \<or> lon = 180 - 1 / 2 ^ 45"
    and "\<bar>c_asinh lm (c_tan lm (rd (lat * rd (math_pi / 180))))\<bar> \<le> 314159 / 100000"
  shows "deg2num lm lat lon 0 = Inr (1, 0)"
proof -
  let ?x = "rd (rd (rd (lon + 180) / 360) * 2 ^ 0)"
  let ?v = "c_asinh lm (c_tan lm (rd (lat * rd (math_pi / 180))))"
  let ?p = "rd (rd (1 - rd (?v / math_pi)) * 2 ^ 0)"
  have x: "?x = 1"
  proof (cases "lon = 180")
    case True
    show ?thesis unfolding True by (rule xtile_east(1))
  next
    case False
    then have l: "lon = 180 - 1 / 2 ^ 45" using assms(1) by simp
    show ?thesis unfolding l by (rule xtile_east(2))
  qed
  have y: "1 / 2 ^ 22 \<le> rd (?p / 2)" "rd (?p / 2) \<le> 1 - 1 / 2 ^ 22" "\<not> is_inf ?p"
    using ytile_zoom0 [OF assms(2)] by simp_all
  have "\<not> is_inf ?x" unfolding x by (intro not_inf) simp
  moreover have "\<not> is_inf (rd (?p / 2))" using y by (intro not_inf) (simp add: abs_le_iff)
  moreover have "py_int ?x = 1" unfolding x by (simp add: py_int_def)
  moreover have "py_int (rd (?p / 2)) = 0" using y by (intro py_int_unit) simp_all
  ultimately show ?thesis
    using y(3) unfolding deg2num_def Let_def by simp
qed

lemma arctan_le_self: "0 \<le> y \<Longrightarrow> arctan y \<le> y"
proof -
  assume y: "0 \<le> y"
  have "(\<lambda>x. x - arctan x) 0 \<le> (\<lambda>x. x - arctan x) y"
  proof (rule DERIV_nonneg_imp_nondecreasing [OF y])
    fix x :: real
    have "DERIV (\<lambda>x. x - arctan x) x :> 1 - inverse (1 + x\<^sup>2)"
      by (auto intro!: derivative_eq_intros)
    moreover have "inverse (1 + x\<^sup>2) \<le> 1"
      by (simp add: inverse_le_1_iff)
    ultimately show "\<exists>d. DERIV (\<lambda>x. x - arctan x) x :> d \<and> 0 \<le> d"
      by (intro exI [of _ "1 - inverse (1 + x\<^sup>2)"]) simp
  qed
  then show ?thesis by simp
qed

lemma arctan_ge_cubic: "0 \<le> y \<Longrightarrow> y - y ^ 3 / 3 \<le> arctan y"
proof -
  assume y: "0 \<le> y"
  have "(\<lambda>x. arctan x - x + x ^ 3 / 3) 0 \<le> (\<lambda>x. arctan x - x + x ^ 3 / 3) y"
  proof (rule DERIV_nonneg_imp_nondecreasing [OF y])
    fix x :: real
    have "DERIV (\<lambda>x. arctan x - x + x ^ 3 / 3) x :> inverse (1 + x\<^sup>2) - 1 + x\<^sup>2"
      by (auto intro!: derivative_eq_intros)
    moreover have "1 - x\<^sup>2 \<le> inverse (1 + x\<^sup>2)"
    proof -
      have "(1 - x\<^sup>2) * (1 + x\<^sup>2) = 1 - x ^ 4" by (simp add: algebra_simps power2_eq_square power4_eq_xxxx)
      then have "(1 - x\<^sup>2) * (1 + x\<^sup>2) \<le> 1" by simp
      moreover have "0 < 1 + x\<^sup>2" by (simp add: add_pos_nonneg)
      ultimately show ?thesis by (simp add: inverse_eq_divide pos_le_divide_eq)
    qed
    ultimately show "\<exists>d. DERIV (\<lambda>x. arctan x - x + x ^ 3 / 3) x :> d \<and> 0 \<le> d"
      by (intro exI [of _ "inverse (1 + x\<^sup>2) - 1 + x\<^sup>2"]) simp
  qed
  then show ?thesis by simp
qed

lemma pi_bounds: "3 < pi" "pi < 16 / 5"
proof -
  have a: "arctan (1 / 5) \<le> 1 / 5" by (rule arctan_le_self) simp
  have b: "0 < arctan (1 / 239)" by simp
  have c: "1 / 5 - (1 / 5) ^ 3 / 3 \<le> arctan (1 / 5)" by (rule arctan_ge_cubic) simp
  have d: "arctan (1 / 239) \<le> 1 / 239" by (rule arctan_le_self) simp
  show "pi < 16 / 5" using a b machin by linarith
  show "3 < pi" using c d machin by (simp add: field_simps)
qed

lemma tan_75: "7 / 2 \<le> tan (pi / 4 + pi / 6)"
proof -
  have c: "cos (pi / 4) \<noteq> 0" "cos (pi / 6) \<noteq> 0" "cos (pi / 4 + pi / 6) \<noteq> 0"
    using cos_gt_zero_pi [of "pi / 4"] cos_gt_zero_pi [of "pi / 6"]
      cos_gt_zero_pi [of "pi / 4 + pi / 6"] pi_gt_zero by simp_all
  have t: "tan (pi / 4 + pi / 6) = (1 + 1 / sqrt 3) / (1 - 1 / sqrt 3)"
    using tan_add [OF c] by (simp add: tan_45 tan_30)
  define u :: real where "u = 1 / sqrt 3"
  have s: "5 / 3 \<le> sqrt 3" "sqrt 3 \<le> 9 / 5"
    by (rule real_le_rsqrt, simp add: power2_eq_square)
       (rule real_le_lsqrt, simp_all add: power2_eq_square)
  have "0 < sqrt 3" by simp
  then have u: "5 / 9 \<le> u" "u \<le> 3 / 5"
    using s unfolding u_def by (simp_all add: pos_le_divide_eq pos_divide_le_eq)
  then have "7 / 2 \<le> (1 + u) / (1 - u)"
    by (simp add: pos_le_divide_eq)
  then show ?thesis unfolding t u_def .
qed

text \<open>The tangent between 1.3613 and 1.3615, which is where 78 degrees lies.\<close>

lemma tan_78:
  fixes x :: real
  assumes "1427478 / 2 ^ 20 \<le> x" "x \<le> 1427556 / 2 ^ 20"
  shows "7 / 2 \<le> tan x" "tan x \<le> 15 / 2"
proof -
  have p: "3 < pi" "pi < 16 / 5" using pi_bounds by simp_all
  have lo: "pi / 4 + pi / 6 \<le> x" using assms(1) p by simp
  have hi: "x < pi / 2" using assms(2) p by simp
  have "tan (pi / 4 + pi / 6) \<le> tan x"
    using lo hi p by (intro tan_mono_le) simp_all
  then show "7 / 2 \<le> tan x" using tan_75 by linarith
  have "arctan (1 / (15 / 2)) = sgn (15 / 2 :: real) * pi / 2 - arctan (15 / 2)"
    by (rule arctan_inverse) simp
  moreover have "arctan (1 / (15 / 2)) \<le> 1 / (15 / 2)"
    by (rule arctan_le_self) simp
  ultimately have "pi / 2 - 2 / 15 \<le> arctan (15 / 2)" by simp
  then have "x \<le> arctan (15 / 2)" using assms(2) p by simp
  then have "tan x \<le> tan (arctan (15 / 2))"
    using lo p arctan_ubound [of "15 / 2"] by (intro tan_mono_le) simp_all
  then show "tan x \<le> 15 / 2" by (simp add: tan_arctan)
qed

lemma arsinh_78:
  fixes t :: real
  assumes "7 / 2 \<le> t" "t \<le> 15 / 2"
  shows "27 / 16 \<le> arsinh t" "arsinh t \<le> 3"
proof -
  have "exp (27 / 32 :: real) \<le> 1 + 27 / 32 + (27 / 32)\<^sup>2"
    by (rule exp_bound) simp_all
  moreover have "exp (27 / 16 :: real) = exp (27 / 32) ^ 2"
    using exp_double [of "27 / 32 :: real"] by simp
  ultimately have "exp (27 / 16 :: real) \<le> (1 + 27 / 32 + (27 / 32)\<^sup>2) ^ 2"
    by (simp add: power_mono)
  then have e1: "exp (27 / 16 :: real) \<le> 7" by (simp add: power2_eq_square)
  have "7 / 2 \<le> sqrt (t\<^sup>2 + 1)"
  proof (rule real_le_rsqrt)
    have "(7 / 2)\<^sup>2 \<le> t\<^sup>2" using assms(1) by (intro power_mono) simp_all
    then show "(7 / 2)\<^sup>2 \<le> t\<^sup>2 + 1" by simp
  qed
  then have "7 \<le> t + sqrt (t\<^sup>2 + 1)" using assms(1) by simp
  then have "exp (27 / 16) \<le> t + sqrt (t\<^sup>2 + 1)" "0 < t + sqrt (t\<^sup>2 + 1)"
    using e1 by linarith+
  then show "27 / 16 \<le> arsinh t"
    unfolding arsinh_real_def by (subst ln_ge_iff) simp_all
  have "(9 / 8 :: real) ^ 24 \<le> exp (1 / 8) ^ 24"
    using exp_ge_add_one_self [of "1 / 8"] by (intro power_mono) simp_all
  moreover have "exp (1 / 8 :: real) ^ 24 = exp 3"
    using exp_of_nat_mult [of 24 "1 / 8 :: real"] by simp
  moreover have "(151 / 10 :: real) \<le> (9 / 8) ^ 24" by (simp add: power_divide)
  ultimately have e2: "151 / 10 \<le> exp (3::real)" by linarith
  have "t\<^sup>2 \<le> (15 / 2)\<^sup>2" using assms by (intro power_mono) simp_all
  then have "sqrt (t\<^sup>2 + 1) \<le> 76 / 10"
    by (intro real_le_lsqrt) (simp_all add: power2_eq_square)
  then have "t + sqrt (t\<^sup>2 + 1) \<le> exp 3" using assms(2) e2 by linarith
  moreover have "0 < t + sqrt (t\<^sup>2 + 1)" using assms(1) by (intro add_pos_nonneg) simp_all
  ultimately have "ln (t + sqrt (t\<^sup>2 + 1)) \<le> ln (exp 3)"
    by (subst ln_le_cancel_iff) simp_all
  then show "arsinh t \<le> 3" unfolding arsinh_real_def by simp
qed

lemma rd_numeral [simp]: "(numeral k :: int) < 2 ^ 53 \<Longrightarrow> rd (numeral k) = numeral k"
  using rd_int [of "numeral k"] by simp

lemma rd_1 [simp]: "rd 1 = 1"
  using rd_int [of 1] by simp

lemma rd_fractions [simp]: "rd (1 / 2) = 1 / 2" "rd (3 / 4) = 3 / 4"
  using rd_dyadic [of 1 1] rd_dyadic [of 3 2] by simp_all

lemma not_inf_numeral [simp]: "(numeral k :: int) \<le> 2 ^ 53 \<Longrightarrow> \<not> is_inf (numeral k)"
proof (rule not_inf)
  assume "(numeral k :: int) \<le> 2 ^ 53"
  then have "real_of_int (numeral k) \<le> 2 ^ 53"
    by (metis of_int_le_numeral_power_cancel_iff)
  then show "\<bar>numeral k :: real\<bar> \<le> 2 ^ 53" by simp
qed

lemma not_inf_simps [simp]: "\<not> is_inf 0" "\<not> is_inf 1" "\<not> is_inf (1 / 2)"
  by (rule not_inf, simp)+

lemma py_int_between: "of_int k \<le> r \<Longrightarrow> r < of_int k + 1 \<Longrightarrow> 0 \<le> k \<Longrightarrow> py_int r = k"
  by (simp add: py_int_def floor_eq_iff)

lemma deg2num_Inr:
  assumes "zoom < 1024"
    and "x = rd (rd (rd (lon + 180) / 360) * 2 ^ zoom)"
    and "p = rd (rd (1 - rd (c_asinh lm (c_tan lm (rd (lat * rd (math_pi / 180)))) / math_pi))
                  * 2 ^ zoom)"
    and "\<not> is_inf x" "\<not> is_inf p" "\<not> is_inf (rd (p / 2))"
  shows "deg2num lm lat lon zoom = Inr (py_int x, py_int (rd (p / 2)))"
  using assms by (simp add: deg2num_def Let_def)

lemmas equator_defs = deg2num_def corner_of_def Let_def exact_libm_def py_int_def

lemma corner_equator:
  "corner_of exact_libm 0 0 0 = (0, 0)"
  "corner_of exact_libm 0 0 1 = (1, 1)"
  "corner_of exact_libm 0 0 2 = (2, 2)"
  "corner_of exact_libm 0 0 (Suc 0) = (1, 1)"
  "corner_of exact_libm 0 (- 180) 1 = (0, 1)"
  "corner_of exact_libm 0 (- 180) (Suc 0) = (0, 1)"
  "corner_of exact_libm 0 (- 180) 2 = (0, 2)"
  "corner_of exact_libm 0 (- 180) 3 = (0, 4)"
  "corner_of exact_libm 0 90 3 = (6, 4)"
  by (simp_all add: equator_defs)

lemma corner_equator_179: "corner_of exact_libm 0 179 3 = (7, 4)"
proof -
  define b where "b = rd (359 / 360)"
  define x where "x = rd (b * 8)"
  have b: "127 / 2 ^ 7 \<le> b" "b \<le> 1023 / 2 ^ 10"
    unfolding b_def
    using rd_ge [of 127 7 "359 / 360"] rd_le [of "359 / 360" 1023 10]
    by simp_all
  have x: "127 / 2 ^ 4 \<le> x" "x \<le> 1023 / 2 ^ 7"
    unfolding x_def
    using rd_ge [of 127 4 "b * 8"] rd_le [of "b * 8" 1023 7] b by simp_all
  have px: "py_int x = 7" using x by (intro py_int_between) simp_all
  have ix: "\<not> is_inf x" using x by (intro not_inf) simp
  have p4: "py_int 4 = 4" by (simp add: py_int_def)
  show ?thesis
    by (simp add: deg2num_def corner_of_def Let_def exact_libm_def b_def [symmetric]
        x_def [symmetric] ix px p4)
qed

text \<open>The zoom level 2, as the loops count up to it.\<close>

lemma corner_of_two: "corner_of lm lat lon (Suc (Suc 0)) = corner_of lm lat lon 2"
  by (simp add: numeral_2_eq_2)

lemma rows_78:
  defines "v \<equiv> c_asinh exact_libm (c_tan exact_libm (rd (78 * rd (math_pi / 180))))"
  shows "27 / 16 \<le> v" "v \<le> 3"
proof -
  define d where "d = rd (math_pi / 180)"
  define x where "x = rd (78 * d)"
  have d: "18301 / 2 ^ 20 \<le> d" "d \<le> 18302 / 2 ^ 20"
    unfolding d_def
    using rd_ge [of 18301 20 "math_pi / 180"] rd_le [of "math_pi / 180" 18302 20]
    by (simp_all add: math_pi_def)
  have x: "1427478 / 2 ^ 20 \<le> x" "x \<le> 1427556 / 2 ^ 20"
    unfolding x_def
    using rd_ge [of 1427478 20 "78 * d"] rd_le [of "78 * d" 1427556 20] d by simp_all
  have "7 / 2 \<le> tan x" "tan x \<le> 15 / 2" using tan_78 [OF x] by simp_all
  then have t: "7 / 2 \<le> rd (tan x)" "rd (tan x) \<le> 15 / 2"
    using rd_ge [of 7 1 "tan x"] rd_le [of "tan x" 15 1] by simp_all
  have "27 / 16 \<le> arsinh (rd (tan x))" "arsinh (rd (tan x)) \<le> 3"
    using arsinh_78 [OF t] by simp_all
  then have "27 / 16 \<le> rd (arsinh (rd (tan x)))" "rd (arsinh (rd (tan x))) \<le> 3"
    using rd_ge [of 27 4 "arsinh (rd (tan x))"] rd_le [of "arsinh (rd (tan x))" 3 0] by simp_all
  then show "27 / 16 \<le> v" "v \<le> 3"
    by (simp_all add: v_def exact_libm_def x_def d_def)
qed

lemma ytile_78:
  assumes "z \<le> 2"
  defines "p \<equiv> rd (rd (1 - rd (c_asinh exact_libm (c_tan exact_libm
      (rd (78 * rd (math_pi / 180)))) / math_pi)) * 2 ^ z)"
  shows "\<not> is_inf p" "\<not> is_inf (rd (p / 2))" "py_int (rd (p / 2)) = 0"
proof -
  define v where "v = c_asinh exact_libm (c_tan exact_libm (rd (78 * rd (math_pi / 180))))"
  define q where "q = rd (v / math_pi)"
  define r where "r = rd (1 - q)"
  have v: "27 / 16 \<le> v" "v \<le> 3" using rows_78 by (simp_all add: v_def)
  then have "17 / 2 ^ 5 \<le> v / math_pi" "v / math_pi \<le> 31 / 2 ^ 5"
    by (simp_all add: math_pi_def field_simps)
  then have q: "17 / 2 ^ 5 \<le> q" "q \<le> 31 / 2 ^ 5"
    unfolding q_def using rd_ge [of 17 5 "v / math_pi"] rd_le [of "v / math_pi" 31 5]
    by simp_all
  have r: "1 / 2 ^ 5 \<le> r" "r \<le> 15 / 2 ^ 5"
    unfolding r_def using rd_ge [of 1 5 "1 - q"] rd_le [of "1 - q" 15 5] q by simp_all
  have z: "(1::real) \<le> 2 ^ z" "(2::real) ^ z \<le> 4"
    using assms(1) power_increasing [of z 2 "2::real"] by simp_all
  have "1 / 2 ^ 5 \<le> r * 2 ^ z"
    using r(1) z(1) mult_mono [of "1 / 2 ^ 5" r 1 "2 ^ z"] by simp
  moreover have "r * 2 ^ z \<le> 15 / 2 ^ 3"
    using r z(2) mult_mono [of r "15 / 2 ^ 5" "2 ^ z" 4] by simp
  ultimately have p: "1 / 2 ^ 5 \<le> p" "p \<le> 15 / 2 ^ 3"
    unfolding p_def v_def [symmetric] q_def [symmetric] r_def [symmetric]
    using rd_ge [of 1 5 "r * 2 ^ z"] rd_le [of "r * 2 ^ z" 15 3] by simp_all
  then have y: "1 / 2 ^ 6 \<le> rd (p / 2)" "rd (p / 2) \<le> 15 / 2 ^ 4"
    using rd_ge [of 1 6 "p / 2"] rd_le [of "p / 2" 15 4] by simp_all
  show "\<not> is_inf p" using p by (intro not_inf) simp
  show "\<not> is_inf (rd (p / 2))" using y by (intro not_inf) simp
  show "py_int (rd (p / 2)) = 0" using y by (intro py_int_unit) simp_all
qed

lemma corner_78:
  "corner_of exact_libm 78 90 1 = (1, 0)"
  "corner_of exact_libm 78 90 2 = (3, 0)"
  "corner_of exact_libm 78 90 (Suc 0) = (1, 0)"
proof -
  have a: "deg2num exact_libm 78 90 z = Inr (py_int (3 * 2 ^ z / 4), 0)" if "z = 1 \<or> z = 2" for z
  proof -
    have z: "z \<le> 2" "z < 1024" using that by auto
    have x: "rd (rd (rd (90 + 180) / 360) * 2 ^ z) = 3 * 2 ^ z / 4"
      using that rd_dyadic [of 3 1] by auto
    have i: "\<not> is_inf (3 * 2 ^ z / 4)"
      using that by (intro not_inf) auto
    show ?thesis
      using deg2num_Inr [OF z(2) x [symmetric] refl i ytile_78(1) [OF z(1)] ytile_78(2) [OF z(1)]]
      by (simp add: ytile_78(3) [OF z(1)])
  qed
  show "corner_of exact_libm 78 90 1 = (1, 0)"
    using a [of 1] by (simp add: corner_of_def py_int_def)
  show "corner_of exact_libm 78 90 2 = (3, 0)"
    using a [of 2] by (simp add: corner_of_def py_int_def)
  show "corner_of exact_libm 78 90 (Suc 0) = (1, 0)"
    using a [of 1] by (simp add: corner_of_def py_int_def)
qed

lemma rows_minus_78:
  "c_asinh exact_libm (c_tan exact_libm (rd (- 78 * rd (math_pi / 180)))) =
   - c_asinh exact_libm (c_tan exact_libm (rd (78 * rd (math_pi / 180))))"
proof -
  have "rd (- 78 * rd (math_pi / 180)) = - rd (78 * rd (math_pi / 180))"
    using rd_minus [of "78 * rd (math_pi / 180)"] by simp
  then show ?thesis
    by (simp add: exact_libm_def rd_minus arsinh_minus_real)
qed

text \<open>Between the latitudes 85 and 85.0625 the row is a finite number.\<close>

lemma rows_85:
  assumes "85 \<le> lat" "lat \<le> 1361 / 16"
  defines "v \<equiv> c_asinh exact_libm (c_tan exact_libm (rd (lat * rd (math_pi / 180))))"
  shows "0 \<le> v" "v \<le> 140"
proof -
  define d where "d = rd (math_pi / 180)"
  define x where "x = rd (lat * d)"
  have d: "18301 / 2 ^ 20 \<le> d" "d \<le> 18302 / 2 ^ 20"
    unfolding d_def
    using rd_ge [of 18301 20 "math_pi / 180"] rd_le [of "math_pi / 180" 18302 20]
    by (simp_all add: math_pi_def)
  have "85 * (18301 / 2 ^ 20) \<le> lat * d" "lat * d \<le> 1361 / 16 * (18302 / 2 ^ 20)"
    using assms(1,2) d by (intro mult_mono; simp)+
  then have x: "1555000 / 2 ^ 20 \<le> x" "x \<le> 1557000 / 2 ^ 20"
    unfolding x_def
    using rd_ge [of 1555000 20 "lat * d"] rd_le [of "lat * d" 1557000 20]
    by simp_all
  have p: "3 < pi" using pi_bounds by simp
  have "0 \<le> tan x" using x p by (intro tan_pos_pi2_le) simp_all
  have "arctan (1 / 70) = sgn (70 :: real) * pi / 2 - arctan 70"
    by (rule arctan_inverse) simp
  moreover have "arctan (1 / 70) \<le> 1 / 70"
    by (rule arctan_le_self) simp
  ultimately have "pi / 2 - 1 / 70 \<le> arctan 70" by simp
  then have "x \<le> arctan 70" using x(2) p by simp
  then have "tan x \<le> tan (arctan 70)"
    using x(1) p arctan_ubound [of 70] by (intro tan_mono_le) simp_all
  then have "tan x \<le> 70" by (simp add: tan_arctan)
  then have t: "0 \<le> rd (tan x)" "rd (tan x) \<le> 70"
    using \<open>0 \<le> tan x\<close> rd_nonneg [of "tan x"] rd_le [of "tan x" 70 0] by simp_all
  define t where "t = rd (tan x)"
  have t': "0 \<le> t" "t \<le> 70" using t by (simp_all add: t_def)
  have "sqrt (t\<^sup>2 + 1) \<le> t + 1"
    using t' by (intro real_le_lsqrt) (simp_all add: power2_eq_square algebra_simps)
  moreover have "1 \<le> sqrt (t\<^sup>2 + 1)" by simp
  ultimately have s: "1 \<le> t + sqrt (t\<^sup>2 + 1)" "t + sqrt (t\<^sup>2 + 1) \<le> 2 * t + 1"
    using t' by linarith+
  have "ln (t + sqrt (t\<^sup>2 + 1)) \<le> t + sqrt (t\<^sup>2 + 1) - 1"
    using s(1) by (intro ln_le_minus_one) simp
  then have a: "0 \<le> arsinh t" "arsinh t \<le> 140"
    unfolding arsinh_real_def using s t' by simp_all
  then have "0 \<le> rd (arsinh t)" "rd (arsinh t) \<le> 140"
    using rd_nonneg [of "arsinh t"] rd_le [of "arsinh t" 140 0] by simp_all
  then show "0 \<le> v" "v \<le> 140"
    by (simp_all add: v_def exact_libm_def t_def x_def d_def)
qed

lemma corner_85:
  assumes "85 \<le> lat" "lat \<le> 1361 / 16"
  shows "fst (corner_of exact_libm lat 180 0) = 1"
proof -
  define v where "v = c_asinh exact_libm (c_tan exact_libm (rd (lat * rd (math_pi / 180))))"
  define q where "q = rd (v / math_pi)"
  define r where "r = rd (1 - q)"
  define p where "p = rd (r * 2 ^ 0)"
  have v: "0 \<le> v" "v \<le> 140" using rows_85 [OF assms] by (simp_all add: v_def)
  then have "0 \<le> v / math_pi" "v / math_pi \<le> 64"
    by (simp_all add: math_pi_def field_simps)
  then have q: "0 \<le> q" "q \<le> 64"
    unfolding q_def using rd_nonneg [of "v / math_pi"] rd_le [of "v / math_pi" 64 0] by simp_all
  have r: "- 63 \<le> r" "r \<le> 1"
    unfolding r_def using rd_ge [of "- 63" 0 "1 - q"] rd_le [of "1 - q" 1 0] q by simp_all
  have p: "- 63 \<le> p" "p \<le> 1"
    unfolding p_def using rd_ge [of "- 63" 0 "r * 2 ^ 0"] rd_le [of "r * 2 ^ 0" 1 0] r by simp_all
  have y: "- 32 \<le> rd (p / 2)" "rd (p / 2) \<le> 1"
    using rd_ge [of "- 32" 0 "p / 2"] rd_le [of "p / 2" 1 0] p by simp_all
  have i: "\<not> is_inf p" "\<not> is_inf (rd (p / 2))"
    using p y by (auto intro!: not_inf simp: abs_le_iff)
  have x: "rd (rd (rd (180 + 180) / 360) * 2 ^ 0) = 1" by (rule xtile_east(1))
  have "deg2num exact_libm lat 180 0 = Inr (py_int 1, py_int (rd (p / 2)))"
    by (rule deg2num_Inr)
       (simp_all only: x p_def r_def q_def v_def not_inf_simps i [unfolded p_def r_def q_def v_def], simp_all)
  then show ?thesis by (simp add: corner_of_def py_int_def)
qed

section \<open>The tile rectangle of the whole world at zoom 0\<close>




section \<open>Rules for the loops\<close>

text \<open>The state a step leaves, whether it returned or raised.\<close>

definition after :: "(error \<times> state) + state \<Rightarrow> state" where
  "after r = (case r of Inl (e, s) \<Rightarrow> s | Inr s \<Rightarrow> s)"

lemma after_simps [simp]: "after (Inl a) = snd a" "after (Inr s) = s"
  by (simp_all add: after_def split: prod.splits)

text \<open>
  One rule for each loop, in the manner of a Hoare logic: \<open>I\<close> holds of the state whenever
  the body is entered, \<open>Q\<close> holds of the result of the loop, returned or raised.
\<close>

lemma retry_loop_rule:
  assumes step: "\<And>rc s rc' s'. I s \<Longrightarrow> attempt w m Zv Xv Yv rc s = Inr (rc', s') \<Longrightarrow>
                   Q (Inr s') \<and> (Run s' \<longrightarrow> I s')"
    and raise: "\<And>rc s a. I s \<Longrightarrow> attempt w m Zv Xv Yv rc s = Inl a \<Longrightarrow> Q (Inl a)"
    and skip: "\<And>s. I s \<Longrightarrow> Q (Inr s)"
  shows "I s \<Longrightarrow> Q (retry_loop w m Zv Xv Yv rc s)"
proof (induction "length (ServerParts m) - rc" arbitrary: rc s rule: less_induct)
  case less
  show ?case
  proof (cases "rc < length (ServerParts m)")
    case False
    then show ?thesis
      using less.prems skip by (simp add: retry_loop.simps)
  next
    case True
    show ?thesis
    proof (cases "attempt w m Zv Xv Yv rc s")
      case (Inl a)
      then show ?thesis
        using True raise [OF less.prems Inl]
        by (simp add: retry_loop.simps [of w m Zv Xv Yv rc s])
    next
      case (Inr b)
      obtain rc' s' where b: "b = (rc', s')" by (cases b)
      have st: "Q (Inr s') \<and> (Run s' \<longrightarrow> I s')"
        using step [OF less.prems] Inr b by simp
      show ?thesis
      proof (cases "Run s'")
        case False
        then show ?thesis
          using True Inr b st by (simp add: retry_loop.simps [of w m Zv Xv Yv rc s])
      next
        case run: True
        have "rc < rc'"
          using attempt_counter [of w m Zv Xv Yv rc s rc' s'] Inr b True by simp
        then have "length (ServerParts m) - rc' < length (ServerParts m) - rc"
          using True by simp
        then have "Q (retry_loop w m Zv Xv Yv rc' s')"
          using less.hyps [of rc' s'] run st by simp
        then show ?thesis
          using True Inr b run by (simp add: retry_loop.simps [of w m Zv Xv Yv rc s])
      qed
    qed
  qed
qed

lemma x_loop_rule:
  assumes tile: "\<And>Xv s. I s \<Longrightarrow> Q (retry_loop w m Zv Xv Yv 0 (s\<lparr>loopX := Some Xv\<rparr>))"
    and pause: "\<And>s. Q (Inr s) \<Longrightarrow> Run s \<Longrightarrow> I (blocking w (EvSleep (SourceCounter s)) s)"
    and skip: "\<And>s. I s \<Longrightarrow> Q (Inr s)"
  shows "I s \<Longrightarrow> Q (x_loop w m Zv Yv Xs s)"
proof (induction Xs arbitrary: s)
  case Nil
  then show ?case using skip by simp
next
  case (Cons Xv Xs)
  show ?case
  proof (cases "retry_loop w m Zv Xv Yv 0 (s\<lparr>loopX := Some Xv\<rparr>)")
    case (Inl a)
    then show ?thesis using tile [OF Cons.prems, of Xv] by simp
  next
    case (Inr s')
    then have q: "Q (Inr s')" using tile [OF Cons.prems, of Xv] by simp
    show ?thesis
    proof (cases "Run s'")
      case True
      then show ?thesis using Inr Cons.IH [OF pause [OF q True]] by simp
    next
      case False
      then show ?thesis using Inr q by simp
    qed
  qed
qed

lemma y_loop_rule:
  assumes row: "\<And>Yv StartX s s1. I s \<Longrightarrow>
                  start_x min_x (s\<lparr>loopY := Some Yv\<rparr>) = Inr (StartX, s1) \<Longrightarrow>
                  Q (x_loop w m Zv Yv [StartX..max_x] s1)"
    and raise: "\<And>Yv s a. I s \<Longrightarrow> start_x min_x (s\<lparr>loopY := Some Yv\<rparr>) = Inl a \<Longrightarrow> Q (Inl a)"
    and again: "\<And>s. Q (Inr s) \<Longrightarrow> Run s \<Longrightarrow> I s"
    and skip: "\<And>s. I s \<Longrightarrow> Q (Inr s)"
  shows "I s \<Longrightarrow> Q (y_loop w m Zv min_x max_x Ys s)"
proof (induction Ys arbitrary: s)
  case Nil
  then show ?case using skip by simp
next
  case (Cons Yv Ys)
  show ?case
  proof (cases "start_x min_x (s\<lparr>loopY := Some Yv\<rparr>)")
    case (Inl a)
    then show ?thesis using raise [OF Cons.prems Inl] by simp
  next
    case (Inr b)
    obtain StartX s1 where b: "b = (StartX, s1)" by (cases b)
    have q: "Q (x_loop w m Zv Yv [StartX..max_x] s1)"
      using row [OF Cons.prems] Inr b by simp
    show ?thesis
    proof (cases "x_loop w m Zv Yv [StartX..max_x] s1")
      case (Inl a)
      then show ?thesis using Inr b q by simp
    next
      case inr: (Inr s')
      show ?thesis
      proof (cases "Run s'")
        case True
        then show ?thesis
          using Inr b inr q Cons.IH [OF again [of s']] by simp
      next
        case False
        then show ?thesis using Inr b inr q by simp
      qed
    qed
  qed
qed

lemma z_loop_rule:
  assumes level: "\<And>Zv StartY s min_x min_y max_x max_y s1. I s \<Longrightarrow>
                    tile_rect (corner w) (BoundingBox m) Zv = (min_x, min_y, max_x, max_y) \<Longrightarrow>
                    s1 = zoom_head (min_x, min_y, max_x, max_y) Zv (s\<lparr>loopZ := Some Zv\<rparr>) \<Longrightarrow>
                    start_y min_y s1 = Inr StartY \<Longrightarrow>
                    Q (y_loop w m Zv min_x max_x [StartY..max_y] s1)"
    and raise: "\<And>Zv s min_x min_y max_x max_y a. I s \<Longrightarrow>
                  start_y min_y (zoom_head (min_x, min_y, max_x, max_y) Zv (s\<lparr>loopZ := Some Zv\<rparr>))
                    = Inl a \<Longrightarrow> Q (Inl a)"
    and again: "\<And>s. Q (Inr s) \<Longrightarrow> Run s \<Longrightarrow> I s"
    and skip: "\<And>s. I s \<Longrightarrow> Q (Inr s)"
  shows "I s \<Longrightarrow> Q (z_loop w m Zs s)"
proof (induction Zs arbitrary: s)
  case Nil
  then show ?case using skip by simp
next
  case (Cons Zv Zs)
  obtain min_x min_y max_x max_y
    where rect: "tile_rect (corner w) (BoundingBox m) Zv = (min_x, min_y, max_x, max_y)"
    by (cases "tile_rect (corner w) (BoundingBox m) Zv") auto
  define s1 where "s1 = zoom_head (min_x, min_y, max_x, max_y) Zv (s\<lparr>loopZ := Some Zv\<rparr>)"
  show ?case
  proof (cases "start_y min_y s1")
    case (Inl a)
    then show ?thesis
      using raise [OF Cons.prems, of min_y min_x max_x max_y Zv a] rect
      by (simp add: s1_def)
  next
    case (Inr StartY)
    have q: "Q (y_loop w m Zv min_x max_x [StartY..max_y] s1)"
      using level [OF Cons.prems rect s1_def Inr] .
    show ?thesis
    proof (cases "y_loop w m Zv min_x max_x [StartY..max_y] s1")
      case (Inl a)
      then show ?thesis using Inr rect q by (simp add: s1_def [symmetric])
    next
      case inr: (Inr s')
      show ?thesis
      proof (cases "Run s'")
        case True
        then show ?thesis
          using Inr rect inr q Cons.IH [OF again [of s']] by (simp add: s1_def [symmetric])
      next
        case False
        then show ?thesis using Inr rect inr q by (simp add: s1_def [symmetric])
      qed
    qed
  qed
qed

text \<open>The loop \<open>while (MapRun and Run)\<close> runs its body at most once: the body either finds
  \<open>Run\<close> cleared or clears \<open>MapRun\<close>.\<close>

lemma map_loop_once:
  "map_loop w m s = (if MapRun s \<and> Run s then map_body w m s else Inr s)"
proof (cases "MapRun s \<and> Run s")
  case False
  then show ?thesis by (auto simp: map_loop.simps [of w m s])
next
  case True
  show ?thesis
  proof (cases "map_body w m s")
    case (Inl a)
    then show ?thesis using True by (simp add: map_loop.simps [of w m s])
  next
    case (Inr s')
    then have "map_loop w m s' = Inr s'"
      using map_body_stops [OF Inr] by (auto simp: map_loop.simps [of w m s'])
    then show ?thesis using True Inr by (simp add: map_loop.simps [of w m s])
  qed
qed

subsection \<open>Properties that every step keeps\<close>

definition after_attempt :: "(error \<times> state) + (nat \<times> state) \<Rightarrow> state" where
  "after_attempt r = (case r of Inl a \<Rightarrow> snd a | Inr b \<Rightarrow> snd b)"

lemma after_attempt_simps [simp]:
  "after_attempt (Inl a) = snd a" "after_attempt (Inr b) = snd b"
  by (simp_all add: after_attempt_def)

text \<open>\<open>grid_keeps w m P\<close>: every step of the enumeration of source \<open>m\<close> keeps \<open>P\<close>.
  \<open>pass_keeps w P\<close>: so does every step around it.\<close>

definition grid_keeps :: "world \<Rightarrow> mapsource \<Rightarrow> (state \<Rightarrow> bool) \<Rightarrow> bool" where
  "grid_keeps w m P =
     (\<forall>s. P s \<longrightarrow>
        (\<forall>Zv Xv Yv rc. P (after_attempt (attempt w m Zv Xv Yv rc s))) \<and>
        P (blocking w (EvSleep (SourceCounter s)) s) \<and>
        (\<forall>v. P (s\<lparr>loopX := Some v\<rparr>)) \<and>
        (\<forall>v. P (s\<lparr>loopY := Some v\<rparr>)) \<and>
        (\<forall>v. P (s\<lparr>loopZ := Some v\<rparr>)) \<and>
        P (s\<lparr>PickupDone := True\<rparr>) \<and>
        (\<forall>r Zv. P (zoom_head r Zv s)))"

definition pass_keeps :: "world \<Rightarrow> (state \<Rightarrow> bool) \<Rightarrow> bool" where
  "pass_keeps w P =
     (\<forall>s. P s \<longrightarrow>
        (\<forall>msg. P (Log msg s)) \<and>
        P (final_flush s) \<and>
        P (after (final_status s)) \<and>
        P (s\<lparr>VectorTiles := []\<rparr>) \<and>
        P (next_source w s) \<and>
        (\<forall>m. P (source_setup w m s)))"

lemma retry_loop_keeps:
  assumes "grid_keeps w m P" "P s"
  shows "P (after (retry_loop w m Zv Xv Yv rc s))"
proof (rule retry_loop_rule [where I = P and Q = "\<lambda>r. P (after r)"])
  fix rc s rc' s'
  assume "P s" "attempt w m Zv Xv Yv rc s = Inr (rc', s')"
  then have "P s'"
    using assms(1) unfolding grid_keeps_def by (metis after_attempt_simps(2) snd_conv)
  then show "P (after (Inr s')) \<and> (Run s' \<longrightarrow> P s')"
    by simp
next
  fix rc s a
  assume "P s" "attempt w m Zv Xv Yv rc s = Inl a"
  then show "P (after (Inl a))"
    using assms(1) unfolding grid_keeps_def by (metis after_attempt_simps(1) after_simps(1))
qed (use assms in auto)

lemma x_loop_keeps:
  assumes "grid_keeps w m P" "P s"
  shows "P (after (x_loop w m Zv Yv Xs s))"
proof (rule x_loop_rule [where I = P and Q = "\<lambda>r. P (after r)"])
  fix Xv s
  assume "P s"
  then have "P (s\<lparr>loopX := Some Xv\<rparr>)"
    using assms(1) unfolding grid_keeps_def by blast
  then show "P (after (retry_loop w m Zv Xv Yv 0 (s\<lparr>loopX := Some Xv\<rparr>)))"
    by (rule retry_loop_keeps [OF assms(1)])
next
  fix s
  assume "P (after (Inr s))"
  then show "P (blocking w (EvSleep (SourceCounter s)) s)"
    using assms(1) unfolding grid_keeps_def by simp
qed (use assms in auto)

lemma start_x_keeps:
  assumes "grid_keeps w m P" "P s"
  shows "start_x min_x s = Inr (StartX, s1) \<Longrightarrow> P s1"
    and "start_x min_x s = Inl a \<Longrightarrow> P (snd a)"
proof -
  have "P (s\<lparr>PickupDone := True\<rparr>)"
    using assms unfolding grid_keeps_def by blast
  then show "start_x min_x s = Inr (StartX, s1) \<Longrightarrow> P s1"
    using assms(2) by (auto simp: start_x_def split: if_splits option.splits)
  show "start_x min_x s = Inl a \<Longrightarrow> P (snd a)"
    using assms(2) by (auto simp: start_x_def split: if_splits option.splits)
qed

lemma y_loop_keeps:
  assumes "grid_keeps w m P" "P s"
  shows "P (after (y_loop w m Zv min_x max_x Ys s))"
proof (rule y_loop_rule [where I = P and Q = "\<lambda>r. P (after r)"])
  fix Yv StartX s s1
  assume "P s" "start_x min_x (s\<lparr>loopY := Some Yv\<rparr>) = Inr (StartX, s1)"
  moreover from \<open>P s\<close> have "P (s\<lparr>loopY := Some Yv\<rparr>)"
    using assms(1) unfolding grid_keeps_def by blast
  ultimately have "P s1"
    using start_x_keeps(1) [OF assms(1)] by blast
  then show "P (after (x_loop w m Zv Yv [StartX..max_x] s1))"
    by (rule x_loop_keeps [OF assms(1)])
next
  fix Yv s a
  assume "P s" "start_x min_x (s\<lparr>loopY := Some Yv\<rparr>) = Inl a"
  moreover from \<open>P s\<close> have "P (s\<lparr>loopY := Some Yv\<rparr>)"
    using assms(1) unfolding grid_keeps_def by blast
  ultimately show "P (after (Inl a))"
    using start_x_keeps(2) [OF assms(1)] by simp
qed (use assms in auto)

lemma start_y_raise: "start_y min_y s = Inl a \<Longrightarrow> snd a = s"
  by (auto simp: start_y_def split: if_splits option.splits)

lemma z_loop_keeps:
  assumes "grid_keeps w m P" "P s"
  shows "P (after (z_loop w m Zs s))"
proof (rule z_loop_rule [where I = P and Q = "\<lambda>r. P (after r)"])
  fix Zv StartY s min_x min_y max_x max_y s1
  assume "P s" "s1 = zoom_head (min_x, min_y, max_x, max_y) Zv (s\<lparr>loopZ := Some Zv\<rparr>)"
  then have "P s1"
    using assms(1) unfolding grid_keeps_def by blast
  then show "P (after (y_loop w m Zv min_x max_x [StartY..max_y] s1))"
    by (rule y_loop_keeps [OF assms(1)])
next
  fix Zv s min_x min_y max_x max_y a
  assume "P s"
    "start_y min_y (zoom_head (min_x, min_y, max_x, max_y) Zv (s\<lparr>loopZ := Some Zv\<rparr>)) = Inl a"
  then show "P (after (Inl a))"
    using assms(1) start_y_raise [of min_y _ a] unfolding grid_keeps_def by simp
qed (use assms in auto)

lemma map_body_keeps:
  assumes "grid_keeps w m P" "pass_keeps w P" "P s"
  shows "P (after (map_body w m s))"
proof -
  let ?r = "z_loop w m [min_z s..<Suc (max_z m)] (Log (LogNowProcessing (SourceCounter s)) s)"
  have "P (Log (LogNowProcessing (SourceCounter s)) s)"
    using assms(2,3) unfolding pass_keeps_def by blast
  then have z: "P (after ?r)"
    by (rule z_loop_keeps [OF assms(1)])
  show ?thesis
  proof (cases ?r)
    case (Inl a)
    then show ?thesis using z by (simp add: map_body_def)
  next
    case (Inr s1)
    then have "P (final_flush s1)"
      using z assms(2) unfolding pass_keeps_def by simp
    then have f: "P (after (final_status (final_flush s1)))"
      using assms(2) unfolding pass_keeps_def by blast
    show ?thesis
    proof (cases "final_status (final_flush s1)")
      case (Inl a)
      then show ?thesis using f Inr by (simp add: map_body_def)
    next
      case inr: (Inr s2)
      then have "P (next_source w (s2\<lparr>VectorTiles := []\<rparr>))"
        using f assms(2) unfolding pass_keeps_def by simp
      then show ?thesis using Inr inr by (simp add: map_body_def)
    qed
  qed
qed

lemma source_pass_keeps:
  assumes "\<And>m. grid_keeps w m P" "pass_keeps w P" "P s"
  shows "P (after (source_pass w s))"
proof (cases "SourceCounter s < length (Maplist w)")
  case False
  then show ?thesis using assms(3) by (simp add: source_pass_def)
next
  case True
  let ?m = "Maplist w ! SourceCounter s"
  have "P (source_setup w ?m s)"
    using assms(2,3) unfolding pass_keeps_def by blast
  then show ?thesis
    using True map_body_keeps [OF assms(1) assms(2), of "source_setup w ?m s" ?m]
    by (simp add: source_pass_def map_loop_once)
qed

lemma main_loop_keeps:
  assumes "\<And>m. grid_keeps w m P" "pass_keeps w P"
  shows "P s \<Longrightarrow> main_loop n w s = Some r \<Longrightarrow> P (after r)"
proof (induction n arbitrary: s)
  case 0
  then show ?case
    using assms(2) unfolding pass_keeps_def
    by (auto simp: main_loop.simps [of 0] split: if_splits)
next
  case (Suc n)
  show ?case
  proof (cases "Run s")
    case False
    then show ?thesis
      using Suc.prems assms(2) unfolding pass_keeps_def
      by (auto simp: main_loop.simps [of "Suc n"])
  next
    case True
    have p: "P (after (source_pass w s))"
      using source_pass_keeps [OF assms Suc.prems(1)] .
    show ?thesis
    proof (cases "source_pass w s")
      case (Inl a)
      then show ?thesis
        using True Suc.prems(2) p by (auto simp: main_loop.simps [of "Suc n"])
    next
      case (Inr s')
      then show ?thesis
        using True Suc.prems(2) p Suc.IH [of s'] by (simp add: main_loop.simps [of "Suc n"])
    qed
  qed
qed

section \<open>Runs of the program on small maps\<close>

text \<open>
  The runs below use \<open>deg2num\<close> itself for the corners, with the library that rounds
  correctly, on bounding boxes whose latitudes are 0 (the equator, where \<open>tan\<close> and \<open>asinh\<close>
  are 0) and 78. A box on the equator is one row of tiles.
\<close>

definition scenario_source ::
  "real \<times> real \<times> real \<times> real \<Rightarrow> string list \<Rightarrow> nat \<Rightarrow> nat \<Rightarrow> mapsource" where
  "scenario_source bb parts lo hi =
     \<lparr>DownloadURL = ''https://{server}.example/{z}/{x}/{y}.pbf'', BoundingBox = bb,
      ServerParts = parts, MBtilesDB = ''map.mbtiles'', Name = ''map'', min_z0 = lo,
      max_z = hi, ReadSpacing = 1\<rparr>"

definition scenario_world ::
  "mapsource list \<Rightarrow> nat \<Rightarrow> (nat \<Rightarrow> nat) \<Rightarrow> (nat \<Rightarrow> bool) \<Rightarrow> world" where
  "scenario_world ms wi status sig =
     \<lparr>Maplist = ms, WriteInterval = wi, corner = corner_of exact_libm,
      http_get = (\<lambda>k. (status k, [])), signal_at = sig, gzip_compress = id,
      status_files = (\<lambda>_. None)\<rparr>"

text \<open>The trace a run of the program leaves (empty when the bound on the passes was
  reached).\<close>

definition result_trace :: "((error \<times> state) + state) option \<Rightarrow> event list" where
  "result_trace r = (case r of Some x \<Rightarrow> Trace (after x) | None \<Rightarrow> [])"

definition result_file :: "((error \<times> state) + state) option \<Rightarrow> Status option" where
  "result_file r = (case r of Some x \<Rightarrow> StateFile (after x) | None \<Rightarrow> None)"

text \<open>The exception a run of the program ended with, if it ended with one.\<close>

definition result_error :: "((error \<times> state) + state) option \<Rightarrow> error option" where
  "result_error r = (case r of Some (Inl (e, s)) \<Rightarrow> Some e | _ \<Rightarrow> None)"

text \<open>The sizes of the batches written, and the pairs (batch size, running total) logged.\<close>

fun written_batches :: "event list \<Rightarrow> nat list" where
  "written_batches [] = []"
| "written_batches (EvWriteTiles db ts # es) = length ts # written_batches es"
| "written_batches (e # es) = written_batches es"

fun logged_totals :: "event list \<Rightarrow> (nat \<times> nat) list" where
  "logged_totals [] = []"
| "logged_totals (EvLog (LogAdded n t) # es) = (n, t) # logged_totals es"
| "logged_totals (e # es) = logged_totals es"

fun requests :: "event list \<Rightarrow> (nat \<times> int \<times> int) list" where
  "requests [] = []"
| "requests (EvGet p z x y # es) = (z, x, y) # requests es"
| "requests (e # es) = requests es"

lemma requests_append: "requests (xs @ ys) = requests xs @ requests ys"
  by (induction xs rule: requests.induct) simp_all

lemmas run_defs =
  program_def startup_def initial_def main_loop.simps source_pass_def scenario_world_def
  scenario_source_def source_setup_def map_loop.simps map_body_def Log_def tile_rect_def
  zoom_head_def WriteGlobalStatus_def start_y_def start_x_def retry_loop.simps attempt_def
  next_server_def blocking_def handle_response_def on_success_def on_failed_def
  flush_batch_def WriteToDB_def final_flush_def final_status_def next_source_def
  count_pass_def WriteMapStatus_def Let_def upto_rec1 upt_rec corner_equator
  corner_equator_179 corner_78 corner_of_two result_trace_def result_file_def

section \<open>The checkpoint written at the head of a zoom level\<close>

text \<open>
  Claim C1: at the head of each zoom level the state file should take the new zoom level
  with the first column and row of its rectangle. The script writes the variable \<open>min_z\<close>
  there (line 226), the zoom level the pass started from, next to the column and row of
  the new level; the other two calls of \<open>WriteGlobalStatus\<close> (lines 266 and 299) write
  \<open>Z\<close>. The run: one source, the bounding box \<open>[0, 0, 0, 0]\<close>, zoom levels 0 and 1, every
  answer 200, a signal during the request of the tile of level 1. At the head of level 1
  the state file gets zoom 0 with column 1 and row 1, the tile of level 1.
\<close>

theorem zoom_head_writes_start_zoom:
  "StateFile (zoom_head (min_x, min_y, max_x, max_y) Zv s) =
     Some \<lparr>Source = SourceCounter s, StatusX = min_x, StatusY = min_y, StatusZ = min_z s,
           StatusTotalTileCount = TotalTileCount s\<rparr>
   \<and> result_trace (program 1
        (scenario_world [scenario_source (0, 0, 0, 0) [''''] 0 1] 250 (\<lambda>k. 200) (\<lambda>k. k = 3))
        None) =
     [EvLog LogStart, EvMeta 0, EvLog (LogNowProcessing 0),
      EvWriteGlobalStatus
        \<lparr>Source = 0, StatusX = 0, StatusY = 0, StatusZ = 0, StatusTotalTileCount = 0\<rparr>,
      EvLog (LogWillDownload 0 1), EvGet '''' 0 0 0, EvSleep 0,
      EvWriteGlobalStatus
        \<lparr>Source = 0, StatusX = 1, StatusY = 1, StatusZ = 0, StatusTotalTileCount = 0\<rparr>,
      EvLog (LogWillDownload 1 1), EvGet '''' 1 1 1,
      EvWriteTiles 0
        [\<lparr>tile_z = 0, tile_x = 0, tile_y = 0, tile_data = []\<rparr>,
         \<lparr>tile_z = 1, tile_x = 1, tile_y = 0, tile_data = []\<rparr>],
      EvLog (LogAdded 2 2),
      EvWriteGlobalStatus
        \<lparr>Source = 0, StatusX = 1, StatusY = 1, StatusZ = 1, StatusTotalTileCount = 2\<rparr>,
      EvLog LogShutdown, EvLog (LogEnded 2)]"
  by (simp add: run_defs)

section \<open>The buffer of tiles stays below the flush threshold\<close>

definition batch_ok :: "world \<Rightarrow> event \<Rightarrow> bool" where
  "batch_ok w ev = (case ev of EvWriteTiles db ts \<Rightarrow> length ts \<le> WriteInterval w | _ \<Rightarrow> True)"

text \<open>\<open>buffer_ok\<close>: fewer tiles are buffered than the threshold, and no batch written so
  far had more tiles than the threshold.\<close>

definition buffer_ok :: "world \<Rightarrow> state \<Rightarrow> bool" where
  "buffer_ok w s =
     (length (VectorTiles s) < WriteInterval w \<and> list_all (batch_ok w) (Trace s))"

lemma on_success_buffer:
  "length (VectorTiles (on_success w Zv Xv Yv body s)) =
     (if Suc (length (VectorTiles s)) = WriteInterval w then 0 else Suc (length (VectorTiles s)))"
  by (simp add: on_success_def flush_batch_def WriteToDB_def WriteGlobalStatus_def Log_def Let_def)

lemma on_success_buffer_ok:
  "buffer_ok w s \<Longrightarrow> buffer_ok w (on_success w Zv Xv Yv body s)"
  by (auto simp: buffer_ok_def batch_ok_def on_success_def flush_batch_def WriteToDB_def
        WriteGlobalStatus_def Log_def Let_def)

lemma attempt_buffer_ok:
  "buffer_ok w s \<Longrightarrow> buffer_ok w (after_attempt (attempt w m Zv Xv Yv rc s))"
proof (cases "next_server (ServerParts m) (ServerPartNumber s)")
  case (Inl e)
  then show "buffer_ok w s \<Longrightarrow> ?thesis" by (simp add: attempt_def)
next
  case (Inr b)
  obtain p n where b: "b = (p, n)" by (cases b)
  assume "buffer_ok w s"
  then have "buffer_ok w (blocking w (EvGet p Zv Xv Yv) (s\<lparr>ServerPartNumber := n\<rparr>))"
    by (simp add: buffer_ok_def batch_ok_def blocking_def)
  then show ?thesis
    using Inr b on_success_buffer_ok
    by (simp add: attempt_def handle_response_def on_failed_def Log_def buffer_ok_def
          batch_ok_def)
qed

lemma grid_keeps_buffer_ok: "grid_keeps w m (buffer_ok w)"
  unfolding grid_keeps_def
proof (intro allI impI conjI)
  fix s Zv Xv Yv rc
  assume "buffer_ok w s"
  then show "buffer_ok w (after_attempt (attempt w m Zv Xv Yv rc s))"
    by (rule attempt_buffer_ok)
qed (auto simp: buffer_ok_def batch_ok_def blocking_def zoom_head_def WriteGlobalStatus_def
       Log_def Let_def)

lemma pass_keeps_buffer_ok: "0 < WriteInterval w \<Longrightarrow> pass_keeps w (buffer_ok w)"
  unfolding pass_keeps_def
  by (auto simp: buffer_ok_def batch_ok_def Log_def final_flush_def WriteToDB_def
        final_status_def WriteGlobalStatus_def next_source_def count_pass_def
        WriteMapStatus_def blocking_def source_setup_def Let_def
      split: option.splits)

lemma startup_buffer_ok: "0 < WriteInterval w \<Longrightarrow> buffer_ok w (after (startup w file))"
  by (auto simp: startup_def initial_def buffer_ok_def batch_ok_def Log_def split: option.splits)

text \<open>
  Claim C8. With a flush threshold of at least one tile: the one step that appends a tile
  (\<open>on_success\<close>) leaves the buffer one tile longer and still below the threshold, or, when
  that tile fills it, flushes and leaves it empty; every attempt, every loop and every
  pass keeps \<open>buffer_ok\<close>; and \<open>buffer_ok\<close> holds of the state in which the program ends,
  whether it exits or raises.
\<close>

theorem buffer_below_threshold:
  assumes "0 < WriteInterval w"
  shows "(length (VectorTiles s) < WriteInterval w \<longrightarrow>
            length (VectorTiles (on_success w Zv Xv Yv body s)) =
              (if Suc (length (VectorTiles s)) = WriteInterval w then 0
               else Suc (length (VectorTiles s)))
          \<and> length (VectorTiles (on_success w Zv Xv Yv body s)) < WriteInterval w)
       \<and> (buffer_ok w s \<longrightarrow>
            buffer_ok w (after_attempt (attempt w m Zv Xv Yv rc s))
          \<and> buffer_ok w (after (retry_loop w m Zv Xv Yv rc s))
          \<and> buffer_ok w (after (x_loop w m Zv Yv Xs s))
          \<and> buffer_ok w (after (y_loop w m Zv min_x max_x Ys s))
          \<and> buffer_ok w (after (z_loop w m Zs s))
          \<and> buffer_ok w (after (source_pass w s)))
       \<and> (program n w file = Some r \<longrightarrow> buffer_ok w (after r))"
proof (intro conjI impI)
  assume "length (VectorTiles s) < WriteInterval w"
  then show "length (VectorTiles (on_success w Zv Xv Yv body s)) < WriteInterval w"
    using assms by (simp add: on_success_buffer)
next
  assume run: "program n w file = Some r"
  have st: "buffer_ok w (after (startup w file))"
    by (rule startup_buffer_ok [OF assms])
  show "buffer_ok w (after r)"
  proof (cases "startup w file")
    case (Inl a)
    then show ?thesis using run st by (simp add: program_def)
  next
    case (Inr s0)
    then have "main_loop n w s0 = Some r" "buffer_ok w s0"
      using run st by (simp_all add: program_def)
    then show ?thesis
      using main_loop_keeps [OF grid_keeps_buffer_ok pass_keeps_buffer_ok [OF assms]]
      by blast
  qed
qed (simp_all add: on_success_buffer attempt_buffer_ok retry_loop_keeps x_loop_keeps
       y_loop_keeps z_loop_keeps source_pass_keeps grid_keeps_buffer_ok
       pass_keeps_buffer_ok [OF assms])

theorem buffer_below_threshold_witness:
  "0 < WriteInterval (scenario_world [scenario_source (0, - 180, 0, 90) [''a''] 3 3] 3
         (\<lambda>k. 200) (\<lambda>k. k = 15))
   \<and> (\<exists>r. program 1 (scenario_world [scenario_source (0, - 180, 0, 90) [''a''] 3 3] 3
              (\<lambda>k. 200) (\<lambda>k. k = 15)) None = Some r
          \<and> buffer_ok (scenario_world [scenario_source (0, - 180, 0, 90) [''a''] 3 3] 3
              (\<lambda>k. 200) (\<lambda>k. k = 15)) (after r))
   \<and> written_batches (result_trace (program 1
        (scenario_world [scenario_source (0, - 180, 0, 90) [''a''] 3 3] 3 (\<lambda>k. 200)
           (\<lambda>k. k = 15)) None)) = [3, 3, 1]"
proof -
  let ?w = "scenario_world [scenario_source (0, - 180, 0, 90) [''a''] 3 3] 3
         (\<lambda>k. 200) (\<lambda>k. k = 15)"
  have pos: "0 < WriteInterval ?w"
    by (simp add: scenario_world_def)
  have "program 1 ?w None \<noteq> None"
    by (simp add: run_defs)
  then obtain r where r: "program 1 ?w None = Some r"
    by auto
  have "buffer_ok ?w (after r)"
    using buffer_below_threshold [OF pos, of _ _ _ _ _ _ _ _ _ _ _ _ 1 None r] r by blast
  moreover have "written_batches (result_trace (program 1 ?w None)) = [3, 3, 1]"
    by (simp add: run_defs)
  ultimately show ?thesis
    using pos r by blast
qed

section \<open>A source with no server parts\<close>

text \<open>The events of an enumeration that never asks for a tile: the pause after a column,
  the state file and the log line at the head of a zoom level.\<close>

definition quiet_event :: "event \<Rightarrow> bool" where
  "quiet_event ev =
     (case ev of
        EvSleep i \<Rightarrow> True
      | EvWriteGlobalStatus st \<Rightarrow> True
      | EvLog msg \<Rightarrow> (case msg of LogWillDownload z n \<Rightarrow> True | _ \<Rightarrow> False)
      | _ \<Rightarrow> False)"

definition quiet :: "state \<Rightarrow> state \<Rightarrow> bool" where
  "quiet s s' =
     ((\<exists>evs. Trace s' = Trace s @ evs \<and> list_all quiet_event evs) \<and>
      VectorTiles s' = VectorTiles s \<and> SessionTileCount s' = SessionTileCount s \<and>
      TotalTileCount s' = TotalTileCount s \<and> ServerPartNumber s' = ServerPartNumber s \<and>
      PickupStatus s' = PickupStatus s \<and> (PickupDone s' \<or> \<not> PickupDone s))"

lemma quiet_refl: "quiet s s"
  by (simp add: quiet_def)

lemma quiet_trans: "quiet s s1 \<Longrightarrow> quiet s1 s2 \<Longrightarrow> quiet s s2"
  unfolding quiet_def by (elim conjE exE) (auto simp: list_all_append)

lemma retry_loop_no_parts: "ServerParts m = [] \<Longrightarrow> retry_loop w m Zv Xv Yv rc s = Inr s"
  by (simp add: retry_loop.simps)

lemma x_loop_no_parts:
  "ServerParts m = [] \<Longrightarrow> \<exists>s'. x_loop w m Zv Yv Xs s = Inr s' \<and> quiet s s'"
proof (induction Xs arbitrary: s)
  case Nil
  then show ?case by (simp add: quiet_refl)
next
  case (Cons Xv Xs)
  let ?s1 = "s\<lparr>loopX := Some Xv\<rparr>"
  let ?s2 = "blocking w (EvSleep (SourceCounter ?s1)) ?s1"
  have q1: "quiet s ?s1" by (simp add: quiet_def)
  show ?case
  proof (cases "Run s")
    case False
    then show ?thesis using Cons.prems q1 by (simp add: retry_loop_no_parts)
  next
    case True
    have "quiet s ?s2"
      by (simp add: quiet_def blocking_def quiet_event_def)
    moreover obtain s' where "x_loop w m Zv Yv Xs ?s2 = Inr s'" "quiet ?s2 s'"
      using Cons.IH [OF Cons.prems] by blast
    ultimately show ?thesis
      using True Cons.prems quiet_trans by (auto simp: retry_loop_no_parts)
  qed
qed

lemma start_x_ok:
  "PickupDone s \<or> PickupStatus s \<noteq> None \<Longrightarrow>
   \<exists>StartX s1. start_x min_x s = Inr (StartX, s1) \<and> quiet s s1"
  by (cases "PickupDone s") (auto simp: start_x_def quiet_def)

lemma start_y_ok:
  "PickupDone s \<or> PickupStatus s \<noteq> None \<Longrightarrow> \<exists>StartY. start_y min_y s = Inr StartY"
  by (cases "PickupDone s") (auto simp: start_y_def)

lemma y_loop_no_parts:
  "ServerParts m = [] \<Longrightarrow> PickupDone s \<or> PickupStatus s \<noteq> None \<Longrightarrow>
   \<exists>s'. y_loop w m Zv min_x max_x Ys s = Inr s' \<and> quiet s s'"
proof (induction Ys arbitrary: s)
  case Nil
  then show ?case by (simp add: quiet_refl)
next
  case (Cons Yv Ys)
  have q0: "quiet s (s\<lparr>loopY := Some Yv\<rparr>)"
    by (simp add: quiet_def)
  obtain StartX s1 where st: "start_x min_x (s\<lparr>loopY := Some Yv\<rparr>) = Inr (StartX, s1)"
    and q01: "quiet (s\<lparr>loopY := Some Yv\<rparr>) s1"
    using start_x_ok [of "s\<lparr>loopY := Some Yv\<rparr>" min_x] Cons.prems(2) by auto
  have q1: "quiet s s1" using q0 q01 by (rule quiet_trans)
  obtain s2 where x: "x_loop w m Zv Yv [StartX..max_x] s1 = Inr s2" and q2: "quiet s1 s2"
    using x_loop_no_parts [OF Cons.prems(1)] by blast
  have q: "quiet s s2" using q1 q2 by (rule quiet_trans)
  show ?case
  proof (cases "Run s2")
    case False
    then show ?thesis using st x q by simp
  next
    case True
    have "PickupDone s2 \<or> PickupStatus s2 \<noteq> None"
      using q Cons.prems(2) by (auto simp: quiet_def)
    then obtain s' where "y_loop w m Zv min_x max_x Ys s2 = Inr s'" "quiet s2 s'"
      using Cons.IH [OF Cons.prems(1)] by blast
    then show ?thesis
      using True st x q quiet_trans by auto
  qed
qed

lemma z_loop_no_parts:
  "ServerParts m = [] \<Longrightarrow> PickupDone s \<or> PickupStatus s \<noteq> None \<Longrightarrow>
   \<exists>s'. z_loop w m Zs s = Inr s' \<and> quiet s s'"
proof (induction Zs arbitrary: s)
  case Nil
  then show ?case by (simp add: quiet_refl)
next
  case (Cons Zv Zs)
  obtain min_x min_y max_x max_y
    where rect: "tile_rect (corner w) (BoundingBox m) Zv = (min_x, min_y, max_x, max_y)"
    by (cases "tile_rect (corner w) (BoundingBox m) Zv") auto
  define s1 where "s1 = zoom_head (min_x, min_y, max_x, max_y) Zv (s\<lparr>loopZ := Some Zv\<rparr>)"
  have q1: "quiet s s1"
    by (simp add: s1_def quiet_def zoom_head_def WriteGlobalStatus_def Log_def Let_def
          quiet_event_def)
  have p1: "PickupDone s1 \<or> PickupStatus s1 \<noteq> None"
    using q1 Cons.prems(2) by (auto simp: quiet_def)
  then obtain StartY where sy: "start_y min_y s1 = Inr StartY"
    using start_y_ok by blast
  obtain s2 where y: "y_loop w m Zv min_x max_x [StartY..max_y] s1 = Inr s2"
    and q2: "quiet s1 s2"
    using y_loop_no_parts [OF Cons.prems(1) p1] by blast
  have q: "quiet s s2" using q1 q2 by (rule quiet_trans)
  show ?case
  proof (cases "Run s2")
    case False
    then show ?thesis using rect sy y q by (simp add: s1_def [symmetric])
  next
    case True
    have "PickupDone s2 \<or> PickupStatus s2 \<noteq> None"
      using q Cons.prems(2) by (auto simp: quiet_def)
    then obtain s' where "z_loop w m Zs s2 = Inr s'" "quiet s2 s'"
      using Cons.IH [OF Cons.prems(1)] by blast
    then show ?thesis
      using True rect sy y q quiet_trans by (auto simp: s1_def [symmetric])
  qed
qed



section \<open>The retry budget of a tile\<close>

text \<open>What the last failed attempt of a tile logs: a warning after a 404, the error lines
  after any other status.\<close>

definition tile_verdict :: "nat \<Rightarrow> int \<Rightarrow> int \<Rightarrow> nat \<Rightarrow> event list" where
  "tile_verdict Zv Xv Yv code =
     (if code = 404 then [EvLog (LogWarning404 Zv Xv Yv)]
      else [EvLog (LogErrorFailed Zv Xv Yv), EvLog (LogErrorStatus code), EvLog LogErrorURL,
            EvLog LogErrorRequestHeaders, EvLog LogErrorResponseHeaders])"

lemma retry_loop_done:
  "length (ServerParts m) \<le> rc \<Longrightarrow> retry_loop w m Zv Xv Yv rc s = Inr s"
  by (simp add: retry_loop.simps)

lemma retry_loop_last:
  assumes "attempt w m Zv Xv Yv rc s = Inr (rc', s')" "rc < length (ServerParts m)"
    and "length (ServerParts m) \<le> rc'"
  shows "retry_loop w m Zv Xv Yv rc s = Inr s'"
  using assms by (simp add: retry_loop.simps [of w m Zv Xv Yv rc s] retry_loop_done)

lemma retry_loop_all_fail:
  assumes "n = length (ServerParts m) - rc" "rc < length (ServerParts m)"
    and "ServerPartNumber s < length (ServerParts m)" "Run s"
    and "\<forall>j<n. fst (http_get w (Clock s + j)) \<noteq> 200 \<and> \<not> signal_at w (Clock s + j)"
  shows "\<exists>s' ps i. retry_loop w m Zv Xv Yv rc s = Inr s'
           \<and> next_servers (ServerParts m) n (ServerPartNumber s) = Inr (ps, i)
           \<and> Trace s' = Trace s @ map (\<lambda>p. EvGet p Zv Xv Yv) ps
                @ tile_verdict Zv Xv Yv (fst (http_get w (Clock s + n - 1)))
           \<and> ServerPartNumber s' = i \<and> Clock s' = Clock s + n
           \<and> Run s' = (fst (http_get w (Clock s + n - 1)) = 404)
           \<and> VectorTiles s' = VectorTiles s \<and> StateFile s' = StateFile s
           \<and> SessionTileCount s' = SessionTileCount s"
  using assms
proof (induction n arbitrary: rc s)
  case 0
  then show ?case by simp
next
  case (Suc k)
  let ?M = "length (ServerParts m)"
  let ?i = "ServerPartNumber s"
  let ?i' = "Suc ?i mod ?M"
  let ?c = "fst (http_get w (Clock s))"
  let ?s1 = "blocking w (EvGet (ServerParts m ! ?i) Zv Xv Yv) (s\<lparr>ServerPartNumber := ?i'\<rparr>)"
  have c: "?c \<noteq> 200" and sig: "\<not> signal_at w (Clock s)"
    using Suc.prems(5) by (auto dest: spec [of _ 0])
  have ns: "next_server (ServerParts m) ?i = Inr (ServerParts m ! ?i, ?i')"
    using Suc.prems(3) by (rule next_server_mod)
  have i': "?i' < ?M"
    using Suc.prems(3) by (intro mod_less_divisor) auto
  have run1: "Run ?s1" and clock1: "Clock ?s1 = Suc (Clock s)"
    using Suc.prems(4) sig by (simp_all add: blocking_def)
  show ?case
  proof (cases k)
    case 0
    then have last: "Suc rc = ?M"
      using Suc.prems(1,2) by simp
    have att: "attempt w m Zv Xv Yv rc s =
        Inr (Suc rc, if ?c = 404 then Log (LogWarning404 Zv Xv Yv) ?s1
                     else on_failed Zv Xv Yv ?c ?s1)"
      using c last by (simp add: attempt_def ns handle_response_def)
    have le: "?M \<le> Suc rc"
      using last by linarith
    have "retry_loop w m Zv Xv Yv rc s =
        Inr (if ?c = 404 then Log (LogWarning404 Zv Xv Yv) ?s1 else on_failed Zv Xv Yv ?c ?s1)"
      by (rule retry_loop_last [OF att Suc.prems(2) le])
    then show ?thesis
      using 0 run1 ns
      by (simp add: tile_verdict_def Log_def on_failed_def blocking_def)
  next
    case (Suc k')
    then have more: "Suc rc < ?M" and k: "k = ?M - Suc rc"
      using Suc.prems(1,2) by simp_all
    have att: "attempt w m Zv Xv Yv rc s = Inr (Suc rc, ?s1)"
      using c more by (auto simp: attempt_def ns handle_response_def)
    have rest: "\<forall>j<k. fst (http_get w (Clock ?s1 + j)) \<noteq> 200 \<and> \<not> signal_at w (Clock ?s1 + j)"
      using Suc.prems(5) clock1 by (auto dest: spec [of _ "Suc _"])
    have sp1: "ServerPartNumber ?s1 = ?i'"
      by (simp add: blocking_def)
    obtain s' ps i where
      r: "retry_loop w m Zv Xv Yv (Suc rc) ?s1 = Inr s'"
      and n: "next_servers (ServerParts m) k ?i' = Inr (ps, i)"
      and t: "Trace s' = Trace ?s1 @ map (\<lambda>p. EvGet p Zv Xv Yv) ps
                @ tile_verdict Zv Xv Yv (fst (http_get w (Clock ?s1 + k - 1)))"
      and f: "ServerPartNumber s' = i" "Clock s' = Clock ?s1 + k"
        "Run s' = (fst (http_get w (Clock ?s1 + k - 1)) = 404)"
        "VectorTiles s' = VectorTiles ?s1" "StateFile s' = StateFile ?s1"
        "SessionTileCount s' = SessionTileCount ?s1"
      using Suc.IH [OF k more _ run1 rest] i' sp1 by auto
    have "retry_loop w m Zv Xv Yv rc s = Inr s'"
      using att run1 r Suc.prems(2) by (simp add: retry_loop.simps [of w m Zv Xv Yv rc s])
    moreover have "Clock ?s1 + k - 1 = Clock s + Suc k - 1"
      using clock1 Suc by simp
    ultimately show ?thesis
      using n t f ns clock1 by (simp add: blocking_def)
  qed
qed

text \<open>
  Claim C5, as amended. A tile is started with the rotation index inside the list of \<open>M\<close>
  server parts, \<open>Run\<close> set, no answer 200 and no signal during the next \<open>M\<close> blocking
  calls. Then the retry loop makes exactly \<open>M\<close> requests, one to each server part in
  rotation order, and what it does next depends on the status of the last of them only:
  after a 404 it logs the warning and \<open>Run\<close> stays set (the enumeration goes on), after any
  other status it logs the error lines and clears \<open>Run\<close> (the program stops). Nothing is
  buffered and the state file is not written.
\<close>

theorem retry_budget_is_mirror_count:
  assumes "ServerPartNumber s < length (ServerParts m)" and "Run s"
    and "\<forall>j<length (ServerParts m).
           fst (http_get w (Clock s + j)) \<noteq> 200 \<and> \<not> signal_at w (Clock s + j)"
  shows "\<exists>s'. retry_loop w m Zv Xv Yv 0 s = Inr s'
           \<and> Trace s' = Trace s
                @ map (\<lambda>p. EvGet p Zv Xv Yv) (rotate (ServerPartNumber s) (ServerParts m))
                @ tile_verdict Zv Xv Yv
                    (fst (http_get w (Clock s + length (ServerParts m) - 1)))
           \<and> Clock s' = Clock s + length (ServerParts m)
           \<and> ServerPartNumber s' = ServerPartNumber s
           \<and> Run s' = (fst (http_get w (Clock s + length (ServerParts m) - 1)) = 404)
           \<and> VectorTiles s' = VectorTiles s \<and> StateFile s' = StateFile s
           \<and> SessionTileCount s' = SessionTileCount s"
proof -
  let ?M = "length (ServerParts m)"
  have pos: "0 < ?M" using assms(1) by (cases "ServerParts m") auto
  have "next_servers (ServerParts m) ?M (ServerPartNumber s) =
      Inr (rotate (ServerPartNumber s) (ServerParts m), ServerPartNumber s)"
    using assms(1) by (simp add: next_servers_nth cycle_rotate)
  then show ?thesis
    using retry_loop_all_fail [of ?M m 0 s w Zv Xv Yv] pos assms by auto
qed

text \<open>The witness: two server parts, the first request answered 500, the second 404.\<close>

theorem retry_budget_is_mirror_count_witness:
  "ServerPartNumber (initial (scenario_world [scenario_source (0, - 180, 0, 0) [''a'', ''b''] 2 2]
        250 (\<lambda>k. if k = 0 then 500 else 404) (\<lambda>k. False))) < length [''a'', ''b'']
   \<and> Run (initial (scenario_world [scenario_source (0, - 180, 0, 0) [''a'', ''b''] 2 2]
        250 (\<lambda>k. if k = 0 then 500 else 404) (\<lambda>k. False)))
   \<and> (\<exists>s'. retry_loop
              (scenario_world [scenario_source (0, - 180, 0, 0) [''a'', ''b''] 2 2]
                 250 (\<lambda>k. if k = 0 then 500 else 404) (\<lambda>k. False))
              (scenario_source (0, - 180, 0, 0) [''a'', ''b''] 2 2) 2 0 2 0
              (initial (scenario_world [scenario_source (0, - 180, 0, 0) [''a'', ''b''] 2 2]
                 250 (\<lambda>k. if k = 0 then 500 else 404) (\<lambda>k. False))) = Inr s'
          \<and> Trace s' = [EvLog LogStart, EvGet ''a'' 2 0 2, EvGet ''b'' 2 0 2,
                         EvLog (LogWarning404 2 0 2)]
          \<and> Clock s' = 2 \<and> Run s')"
proof -
  let ?m = "scenario_source (0, - 180, 0, 0) [''a'', ''b''] 2 2"
  let ?w = "scenario_world [?m] 250 (\<lambda>k. if k = 0 then 500 else 404) (\<lambda>k. False)"
  have parts: "ServerParts ?m = [''a'', ''b'']"
    by (simp add: scenario_source_def)
  have h1: "ServerPartNumber (initial ?w) < length (ServerParts ?m)"
    by (simp add: initial_def parts)
  have h2: "Run (initial ?w)"
    by (simp add: initial_def)
  have h3: "\<forall>j<length (ServerParts ?m).
      fst (http_get ?w (Clock (initial ?w) + j)) \<noteq> 200 \<and> \<not> signal_at ?w (Clock (initial ?w) + j)"
    by (simp add: scenario_world_def)
  have r: "rotate (ServerPartNumber (initial ?w)) (ServerParts ?m) = [''a'', ''b'']"
    by (simp add: initial_def parts)
  have v: "fst (http_get ?w (Clock (initial ?w) + length (ServerParts ?m) - 1)) = 404"
    by (simp add: initial_def parts scenario_world_def)
  have t: "Trace (initial ?w) = [EvLog LogStart]" "Clock (initial ?w) = 0"
    by (simp_all add: initial_def)
  note th = retry_budget_is_mirror_count [OF h1 h2 h3, of 2 0 2, unfolded r v]
  show ?thesis
    using th h1 h2 by (auto simp: t parts tile_verdict_def)
qed

text \<open>
  The claim as it was stated fails on a tile whose first request, to server part \<open>a\<close>, is
  answered 500 and whose second, to \<open>b\<close>, is answered 404: one attempt returned a status
  that is neither 200 nor 404, yet the tile is logged as out of bounds and the run goes on
  to the next column.
\<close>

theorem retry_budget_counterexample:
  "result_trace (program 1
     (scenario_world [scenario_source (0, - 180, 0, 0) [''a'', ''b''] 2 2] 250
        (\<lambda>k. if k = 1 then 500 else if k = 2 then 404 else 200) (\<lambda>k. k = 4))
     None) =
   [EvLog LogStart, EvMeta 0, EvLog (LogNowProcessing 0),
    EvWriteGlobalStatus
      \<lparr>Source = 0, StatusX = 0, StatusY = 2, StatusZ = 2, StatusTotalTileCount = 0\<rparr>,
    EvLog (LogWillDownload 2 3), EvGet ''a'' 2 0 2, EvGet ''b'' 2 0 2,
    EvLog (LogWarning404 2 0 2), EvSleep 0, EvGet ''a'' 2 1 2,
    EvWriteTiles 0 [\<lparr>tile_z = 2, tile_x = 1, tile_y = 1, tile_data = []\<rparr>],
    EvLog (LogAdded 1 1),
    EvWriteGlobalStatus
      \<lparr>Source = 0, StatusX = 1, StatusY = 2, StatusZ = 2, StatusTotalTileCount = 1\<rparr>,
    EvLog LogShutdown, EvLog (LogEnded 1)]"
  by (simp add: run_defs)

section \<open>A tile that fails on every server part\<close>

text \<open>The tiles whose failure was logged (line 274).\<close>

fun failures :: "event list \<Rightarrow> (nat \<times> int \<times> int) list" where
  "failures [] = []"
| "failures (EvLog (LogErrorFailed z x y) # es) = (z, x, y) # failures es"
| "failures (e # es) = failures es"

lemma failures_append: "failures (xs @ ys) = failures xs @ failures ys"
  by (induction xs rule: failures.induct) simp_all

text \<open>
  \<open>failed_ok\<close>: either no failure has been logged, or exactly one has, \<open>Run\<close> is cleared and
  the loop variables stand at the failed tile. \<open>halt_ok\<close> adds that an exception is only
  raised while no failure has been logged.
\<close>

definition failed_ok :: "state \<Rightarrow> bool" where
  "failed_ok s =
     (failures (Trace s) = [] \<or>
      (\<not> Run s \<and>
       (\<exists>z x y. failures (Trace s) = [(z, x, y)] \<and>
                 loopX s = Some x \<and> loopY s = Some y \<and> loopZ s = Some z)))"

definition halt_ok :: "(error \<times> state) + state \<Rightarrow> bool" where
  "halt_ok r = (case r of Inl a \<Rightarrow> failures (Trace (snd a)) = [] | Inr s \<Rightarrow> failed_ok s)"

lemma failed_ok_running: "failed_ok s \<Longrightarrow> Run s \<Longrightarrow> failures (Trace s) = []"
  by (auto simp: failed_ok_def)

lemma attempt_halt_ok:
  assumes "failures (Trace s) = []" "loopX s = Some Xv" "loopY s = Some Yv" "loopZ s = Some Zv"
  shows "attempt w m Zv Xv Yv rc s = Inr (rc', s') \<Longrightarrow>
           failed_ok s' \<and> loopX s' = Some Xv \<and> loopY s' = Some Yv \<and> loopZ s' = Some Zv"
    and "attempt w m Zv Xv Yv rc s = Inl a \<Longrightarrow> snd a = s"
  using assms
  by (auto simp: attempt_def next_server_def handle_response_def on_success_def
        flush_batch_def WriteToDB_def WriteGlobalStatus_def Log_def on_failed_def
        blocking_def failed_ok_def failures_append Let_def
      split: if_splits)

lemma retry_loop_halt_ok:
  assumes "failures (Trace s) = []" "loopX s = Some Xv" "loopY s = Some Yv" "loopZ s = Some Zv"
  shows "halt_ok (retry_loop w m Zv Xv Yv rc s)
       \<and> loopY (after (retry_loop w m Zv Xv Yv rc s)) = Some Yv
       \<and> loopZ (after (retry_loop w m Zv Xv Yv rc s)) = Some Zv"
proof (rule retry_loop_rule
    [where I = "\<lambda>s. failures (Trace s) = [] \<and> loopX s = Some Xv \<and> loopY s = Some Yv
                       \<and> loopZ s = Some Zv"
       and Q = "\<lambda>r. halt_ok r \<and> loopY (after r) = Some Yv \<and> loopZ (after r) = Some Zv"])
  fix rc rc' and s s' :: state
  assume i: "failures (Trace s) = [] \<and> loopX s = Some Xv \<and> loopY s = Some Yv \<and> loopZ s = Some Zv"
    and a: "attempt w m Zv Xv Yv rc s = Inr (rc', s')"
  have "failed_ok s' \<and> loopX s' = Some Xv \<and> loopY s' = Some Yv \<and> loopZ s' = Some Zv"
    using attempt_halt_ok(1) [OF _ _ _ _ a] i by blast
  then show "(halt_ok (Inr s') \<and> loopY (after (Inr s')) = Some Yv
               \<and> loopZ (after (Inr s')) = Some Zv)
             \<and> (Run s' \<longrightarrow> failures (Trace s') = [] \<and> loopX s' = Some Xv
                   \<and> loopY s' = Some Yv \<and> loopZ s' = Some Zv)"
    using failed_ok_running by (auto simp: halt_ok_def)
next
  fix rc a and s :: state
  assume i: "failures (Trace s) = [] \<and> loopX s = Some Xv \<and> loopY s = Some Yv \<and> loopZ s = Some Zv"
    and a: "attempt w m Zv Xv Yv rc s = Inl a"
  have "snd a = s"
    using attempt_halt_ok(2) [OF _ _ _ _ a] i by blast
  then show "halt_ok (Inl a) \<and> loopY (after (Inl a)) = Some Yv \<and> loopZ (after (Inl a)) = Some Zv"
    using i by (simp add: halt_ok_def)
qed (use assms in \<open>auto simp: halt_ok_def failed_ok_def\<close>)

lemma x_loop_halt_ok:
  assumes "failures (Trace s) = []" "loopY s = Some Yv" "loopZ s = Some Zv"
  shows "halt_ok (x_loop w m Zv Yv Xs s) \<and> loopZ (after (x_loop w m Zv Yv Xs s)) = Some Zv"
proof -
  have "halt_ok (x_loop w m Zv Yv Xs s) \<and> loopY (after (x_loop w m Zv Yv Xs s)) = Some Yv
        \<and> loopZ (after (x_loop w m Zv Yv Xs s)) = Some Zv"
  proof (rule x_loop_rule
      [where I = "\<lambda>s. failures (Trace s) = [] \<and> loopY s = Some Yv \<and> loopZ s = Some Zv"
         and Q = "\<lambda>r. halt_ok r \<and> loopY (after r) = Some Yv \<and> loopZ (after r) = Some Zv"])
    fix Xv and s :: state
    assume "failures (Trace s) = [] \<and> loopY s = Some Yv \<and> loopZ s = Some Zv"
    then show "halt_ok (retry_loop w m Zv Xv Yv 0 (s\<lparr>loopX := Some Xv\<rparr>))
        \<and> loopY (after (retry_loop w m Zv Xv Yv 0 (s\<lparr>loopX := Some Xv\<rparr>))) = Some Yv
        \<and> loopZ (after (retry_loop w m Zv Xv Yv 0 (s\<lparr>loopX := Some Xv\<rparr>))) = Some Zv"
      by (intro retry_loop_halt_ok) simp_all
  next
    fix s :: state
    assume "halt_ok (Inr s) \<and> loopY (after (Inr s)) = Some Yv \<and> loopZ (after (Inr s)) = Some Zv"
      and "Run s"
    then show "failures (Trace (blocking w (EvSleep (SourceCounter s)) s)) = []
        \<and> loopY (blocking w (EvSleep (SourceCounter s)) s) = Some Yv
        \<and> loopZ (blocking w (EvSleep (SourceCounter s)) s) = Some Zv"
      using failed_ok_running [of s]
      by (simp add: halt_ok_def blocking_def failures_append)
  qed (use assms in \<open>auto simp: halt_ok_def failed_ok_def\<close>)
  then show ?thesis by simp
qed

lemma y_loop_halt_ok:
  assumes "failures (Trace s) = []" "loopZ s = Some Zv"
  shows "halt_ok (y_loop w m Zv min_x max_x Ys s)"
proof -
  have "halt_ok (y_loop w m Zv min_x max_x Ys s)
        \<and> loopZ (after (y_loop w m Zv min_x max_x Ys s)) = Some Zv"
  proof (rule y_loop_rule
      [where I = "\<lambda>s. failures (Trace s) = [] \<and> loopZ s = Some Zv"
         and Q = "\<lambda>r. halt_ok r \<and> loopZ (after r) = Some Zv"])
    fix Yv StartX and s s1 :: state
    assume i: "failures (Trace s) = [] \<and> loopZ s = Some Zv"
      and st: "start_x min_x (s\<lparr>loopY := Some Yv\<rparr>) = Inr (StartX, s1)"
    have "failures (Trace s1) = [] \<and> loopY s1 = Some Yv \<and> loopZ s1 = Some Zv"
      using i st by (auto simp: start_x_def split: if_splits option.splits)
    then show "halt_ok (x_loop w m Zv Yv [StartX..max_x] s1)
        \<and> loopZ (after (x_loop w m Zv Yv [StartX..max_x] s1)) = Some Zv"
      by (intro x_loop_halt_ok) simp_all
  next
    fix Yv a and s :: state
    assume "failures (Trace s) = [] \<and> loopZ s = Some Zv"
      and "start_x min_x (s\<lparr>loopY := Some Yv\<rparr>) = Inl a"
    then show "halt_ok (Inl a) \<and> loopZ (after (Inl a)) = Some Zv"
      by (auto simp: start_x_def halt_ok_def split: if_splits option.splits)
  next
    fix s :: state
    assume "halt_ok (Inr s) \<and> loopZ (after (Inr s)) = Some Zv" and "Run s"
    then show "failures (Trace s) = [] \<and> loopZ s = Some Zv"
      using failed_ok_running [of s] by (simp add: halt_ok_def)
  qed (use assms in \<open>auto simp: halt_ok_def failed_ok_def\<close>)
  then show ?thesis by simp
qed

lemma z_loop_halt_ok:
  assumes "failures (Trace s) = []"
  shows "halt_ok (z_loop w m Zs s)"
proof (rule z_loop_rule [where I = "\<lambda>s. failures (Trace s) = []" and Q = halt_ok])
  fix Zv StartY min_x min_y max_x max_y and s s1 :: state
  assume "failures (Trace s) = []"
    and "s1 = zoom_head (min_x, min_y, max_x, max_y) Zv (s\<lparr>loopZ := Some Zv\<rparr>)"
  then have "failures (Trace s1) = []" "loopZ s1 = Some Zv"
    by (simp_all add: zoom_head_def WriteGlobalStatus_def Log_def Let_def failures_append)
  then show "halt_ok (y_loop w m Zv min_x max_x [StartY..max_y] s1)"
    by (rule y_loop_halt_ok)
next
  fix Zv min_x min_y max_x max_y a and s :: state
  assume "failures (Trace s) = []"
    and "start_y min_y (zoom_head (min_x, min_y, max_x, max_y) Zv (s\<lparr>loopZ := Some Zv\<rparr>)) = Inl a"
  then show "halt_ok (Inl a)"
    using start_y_raise [of min_y _ a]
    by (simp add: halt_ok_def zoom_head_def WriteGlobalStatus_def Log_def Let_def
          failures_append)
next
  fix s :: state
  assume "halt_ok (Inr s)" "Run s"
  then show "failures (Trace s) = []"
    using failed_ok_running [of s] by (simp add: halt_ok_def)
qed (use assms in \<open>auto simp: halt_ok_def failed_ok_def\<close>)

text \<open>\<open>pass_ok\<close>: what holds of the result of a pass that began with no failure logged. If the
  pass logged a failure it returned normally, \<open>Run\<close> is cleared, and the state file holds the
  failed tile whenever a tile was downloaded since the program started.\<close>

definition pass_ok :: "(error \<times> state) + state \<Rightarrow> bool" where
  "pass_ok r =
     (case r of
        Inl a \<Rightarrow> failures (Trace (snd a)) = []
      | Inr s \<Rightarrow>
          failures (Trace s) = [] \<or>
          (\<not> Run s \<and>
           (\<exists>z x y. failures (Trace s) = [(z, x, y)] \<and>
              (if 0 < SessionTileCount s
               then StateFile s =
                      Some \<lparr>Source = SourceCounter s, StatusX = x, StatusY = y, StatusZ = z,
                            StatusTotalTileCount = TotalTileCount s\<rparr>
               else True))))"

lemma final_steps_quiet:
  "failures (Trace (final_flush s)) = failures (Trace s)"
  "failures (Trace (after (final_status s))) = failures (Trace s)"
  "failures (Trace (next_source w s)) = failures (Trace s)"
  "failures (Trace (source_setup w m s)) = failures (Trace s)"
  by (simp_all add: final_flush_def WriteToDB_def Log_def final_status_def
        WriteGlobalStatus_def next_source_def count_pass_def WriteMapStatus_def blocking_def
        source_setup_def failures_append Let_def
      split: option.splits)

lemma map_body_cases:
  "z_loop w m [min_z s..<Suc (max_z m)] (Log (LogNowProcessing (SourceCounter s)) s) = Inl a
     \<Longrightarrow> map_body w m s = Inl a"
  "z_loop w m [min_z s..<Suc (max_z m)] (Log (LogNowProcessing (SourceCounter s)) s) = Inr s1
     \<Longrightarrow> final_status (final_flush s1) = Inl a \<Longrightarrow> map_body w m s = Inl a"
  "z_loop w m [min_z s..<Suc (max_z m)] (Log (LogNowProcessing (SourceCounter s)) s) = Inr s1
     \<Longrightarrow> final_status (final_flush s1) = Inr s2
     \<Longrightarrow> map_body w m s = Inr (next_source w (s2\<lparr>VectorTiles := []\<rparr>))"
  by (simp_all add: map_body_def del: upt_Suc)

lemma next_source_stopped: "\<not> Run s \<Longrightarrow> next_source w s = s"
  by (simp add: next_source_def)

lemma map_body_pass_ok:
  assumes "failures (Trace s) = []"
  shows "pass_ok (map_body w m s)"
proof -
  let ?s0 = "Log (LogNowProcessing (SourceCounter s)) s"
  let ?r = "z_loop w m [min_z s..<Suc (max_z m)] ?s0"
  have "failures (Trace ?s0) = []"
    using assms by (simp add: Log_def failures_append)
  then have h: "halt_ok ?r"
    by (rule z_loop_halt_ok)
  show ?thesis
  proof (cases ?r)
    case (Inl a)
    then show ?thesis
      using h map_body_cases(1) [OF Inl] by (simp add: halt_ok_def pass_ok_def)
  next
    case (Inr s1)
    then have f: "failed_ok s1" using h by (simp add: halt_ok_def)
    show ?thesis
    proof (cases "failures (Trace s1) = []")
      case True
      have q: "failures (Trace (after (final_status (final_flush s1)))) = []"
        using True by (simp add: final_steps_quiet)
      show ?thesis
      proof (cases "final_status (final_flush s1)")
        case (Inl a)
        then show ?thesis
          using q map_body_cases(2) [OF Inr Inl] by (simp add: pass_ok_def)
      next
        case inr: (Inr s2)
        have "failures (Trace (s2\<lparr>VectorTiles := []\<rparr>)) = []"
          using q inr by simp
        then have "failures (Trace (next_source w (s2\<lparr>VectorTiles := []\<rparr>))) = []"
          by (simp only: final_steps_quiet)
        then show ?thesis
          using map_body_cases(3) [OF Inr inr] by (simp add: pass_ok_def)
      qed
    next
      case False
      then obtain z x y where stop: "\<not> Run s1" and fl: "failures (Trace s1) = [(z, x, y)]"
        and lv: "loopX s1 = Some x" "loopY s1 = Some y" "loopZ s1 = Some z"
        using f by (auto simp: failed_ok_def)
      let ?s2 = "final_flush s1"
      have s2: "\<not> Run ?s2" "loopX ?s2 = Some x" "loopY ?s2 = Some y" "loopZ ?s2 = Some z"
        "failures (Trace ?s2) = [(z, x, y)]"
        using stop fl lv
        by (simp_all add: final_flush_def WriteToDB_def Log_def failures_append)
      define s3 where "s3 = (if 0 < SessionTileCount ?s2
                 then WriteGlobalStatus (SourceCounter ?s2) x y z (TotalTileCount ?s2) ?s2
                 else ?s2)"
      have fs: "final_status ?s2 = Inr s3"
        using s2 by (simp add: final_status_def s3_def)
      have s3: "\<not> Run s3" "failures (Trace s3) = [(z, x, y)]"
        "SessionTileCount s3 = SessionTileCount ?s2"
        "0 < SessionTileCount ?s2 \<Longrightarrow>
           StateFile s3 = Some \<lparr>Source = SourceCounter s3, StatusX = x, StatusY = y,
             StatusZ = z, StatusTotalTileCount = TotalTileCount s3\<rparr>"
        using s2 by (simp_all add: s3_def WriteGlobalStatus_def Let_def failures_append)
      have "next_source w (s3\<lparr>VectorTiles := []\<rparr>) = s3\<lparr>VectorTiles := []\<rparr>"
        using s3(1) by (simp add: next_source_stopped)
      then have "map_body w m s = Inr (s3\<lparr>VectorTiles := []\<rparr>)"
        using map_body_cases(3) [OF Inr fs] by simp
      then show ?thesis
        using s3 by (simp add: pass_ok_def)
    qed
  qed
qed

lemma source_pass_pass_ok:
  assumes "failures (Trace s) = []"
  shows "pass_ok (source_pass w s)"
proof (cases "SourceCounter s < length (Maplist w)")
  case False
  then show ?thesis using assms by (simp add: source_pass_def pass_ok_def)
next
  case True
  let ?s1 = "source_setup w (Maplist w ! SourceCounter s) s"
  have "failures (Trace ?s1) = []"
    using assms by (simp add: final_steps_quiet)
  then show ?thesis
    using True map_body_pass_ok [of ?s1 w "Maplist w ! SourceCounter s"]
    by (simp add: source_pass_def map_loop_once pass_ok_def)
qed

text \<open>
  Claim C3, as amended. First, the tile: when its \<open>M\<close> requests are all answered 500 (no
  signal meanwhile), the retry loop logs the failure of that tile and clears \<open>Run\<close>.
  Second, the pass: when a pass that began with \<open>Run\<close> set and no failure logged has logged
  the failure of the tile \<open>(z, x, y)\<close>, it returned without an exception, \<open>Run\<close> is cleared,
  the main loop ends after this pass whatever its bound, and, if at least one tile was
  downloaded since the program started, the state file holds the position of the failed
  tile itself, so that the next start tries it again.
\<close>

theorem fatal_halt_saves_failed_tile:
  assumes "Run s" and "failures (Trace s) = []"
  shows "(ServerPartNumber s < length (ServerParts m) \<and>
          (\<forall>j<length (ServerParts m).
              fst (http_get w (Clock s + j)) = 500 \<and> \<not> signal_at w (Clock s + j)) \<longrightarrow>
          (\<exists>s'. retry_loop w m Zv Xv Yv 0 s = Inr s' \<and> \<not> Run s'
             \<and> failures (Trace s') = [(Zv, Xv, Yv)]))
       \<and> ((z, x, y) \<in> set (failures (Trace (after (source_pass w s)))) \<longrightarrow>
          (\<exists>s'. source_pass w s = Inr s' \<and> \<not> Run s'
             \<and> failures (Trace s') = [(z, x, y)]
             \<and> main_loop (Suc n) w s =
                 Some (Inr (Log (LogEnded (SessionTileCount s')) (Log LogShutdown s')))
             \<and> (0 < SessionTileCount s' \<longrightarrow>
                 StateFile s' =
                   Some \<lparr>Source = SourceCounter s', StatusX = x, StatusY = y, StatusZ = z,
                         StatusTotalTileCount = TotalTileCount s'\<rparr>)))"
proof (intro conjI impI)
  assume h: "ServerPartNumber s < length (ServerParts m) \<and>
          (\<forall>j<length (ServerParts m).
              fst (http_get w (Clock s + j)) = 500 \<and> \<not> signal_at w (Clock s + j))"
  let ?M = "length (ServerParts m)"
  have pos: "0 < ?M" using h by (cases "ServerParts m") auto
  have last: "fst (http_get w (Clock s + ?M - 1)) = 500"
    using h pos by (metis Nat.add_diff_assoc Suc_leI diff_less less_numeral_extra(1) One_nat_def)
  obtain s' ps i where "retry_loop w m Zv Xv Yv 0 s = Inr s'"
    "Trace s' = Trace s @ map (\<lambda>p. EvGet p Zv Xv Yv) ps
        @ tile_verdict Zv Xv Yv (fst (http_get w (Clock s + ?M - 1)))"
    "Run s' = (fst (http_get w (Clock s + ?M - 1)) = 404)"
    using retry_loop_all_fail [of ?M m 0 s w Zv Xv Yv] pos h assms(1) by auto
  moreover have "failures (map (\<lambda>p. EvGet p Zv Xv Yv) ps) = []"
    by (induction ps) simp_all
  ultimately show "\<exists>s'. retry_loop w m Zv Xv Yv 0 s = Inr s' \<and> \<not> Run s'
             \<and> failures (Trace s') = [(Zv, Xv, Yv)]"
    using assms(2) last by (simp add: failures_append tile_verdict_def)
next
  assume f: "(z, x, y) \<in> set (failures (Trace (after (source_pass w s))))"
  have ok: "pass_ok (source_pass w s)"
    using assms(2) by (rule source_pass_pass_ok)
  show "\<exists>s'. source_pass w s = Inr s' \<and> \<not> Run s'
             \<and> failures (Trace s') = [(z, x, y)]
             \<and> main_loop (Suc n) w s =
                 Some (Inr (Log (LogEnded (SessionTileCount s')) (Log LogShutdown s')))
             \<and> (0 < SessionTileCount s' \<longrightarrow>
                 StateFile s' =
                   Some \<lparr>Source = SourceCounter s', StatusX = x, StatusY = y, StatusZ = z,
                         StatusTotalTileCount = TotalTileCount s'\<rparr>)"
  proof (cases "source_pass w s")
    case (Inl a)
    then show ?thesis using ok f by (simp add: pass_ok_def)
  next
    case (Inr s')
    then have "\<not> Run s'" "failures (Trace s') = [(z, x, y)]"
      "0 < SessionTileCount s' \<longrightarrow>
         StateFile s' =
           Some \<lparr>Source = SourceCounter s', StatusX = x, StatusY = y, StatusZ = z,
                 StatusTotalTileCount = TotalTileCount s'\<rparr>"
      using ok f by (auto simp: pass_ok_def split: if_splits)
    then show ?thesis
      using Inr assms(1)
      by (simp add: main_loop.simps [of "Suc n" w s] main_loop.simps [of n w s'])
  qed
qed

text \<open>The witness: a row of three tiles and one server part; the first tile is answered
  200 and the second 500. For the first part of the theorem, every request is answered
  500.\<close>

theorem fatal_halt_saves_failed_tile_witness:
  "Run (initial (scenario_world [scenario_source (0, - 180, 0, 0) [''a''] 2 2] 250
          (\<lambda>k. if k = 3 then 500 else 200) (\<lambda>k. False)))
   \<and> failures (Trace (initial (scenario_world [scenario_source (0, - 180, 0, 0) [''a''] 2 2] 250
          (\<lambda>k. if k = 3 then 500 else 200) (\<lambda>k. False)))) = []
   \<and> (2, 1, 2) \<in> set (failures (Trace (after (source_pass
          (scenario_world [scenario_source (0, - 180, 0, 0) [''a''] 2 2] 250
             (\<lambda>k. if k = 3 then 500 else 200) (\<lambda>k. False))
          (initial (scenario_world [scenario_source (0, - 180, 0, 0) [''a''] 2 2] 250
             (\<lambda>k. if k = 3 then 500 else 200) (\<lambda>k. False)))))))
   \<and> (\<exists>s'. source_pass
          (scenario_world [scenario_source (0, - 180, 0, 0) [''a''] 2 2] 250
             (\<lambda>k. if k = 3 then 500 else 200) (\<lambda>k. False))
          (initial (scenario_world [scenario_source (0, - 180, 0, 0) [''a''] 2 2] 250
             (\<lambda>k. if k = 3 then 500 else 200) (\<lambda>k. False))) = Inr s'
        \<and> \<not> Run s' \<and> SessionTileCount s' = 1
        \<and> main_loop 1
             (scenario_world [scenario_source (0, - 180, 0, 0) [''a''] 2 2] 250
                (\<lambda>k. if k = 3 then 500 else 200) (\<lambda>k. False))
             (initial (scenario_world [scenario_source (0, - 180, 0, 0) [''a''] 2 2] 250
                (\<lambda>k. if k = 3 then 500 else 200) (\<lambda>k. False))) =
            Some (Inr (Log (LogEnded 1) (Log LogShutdown s')))
        \<and> StateFile s' =
            Some \<lparr>Source = 0, StatusX = 1, StatusY = 2, StatusZ = 2, StatusTotalTileCount = 1\<rparr>)
   \<and> (\<exists>s'. retry_loop
          (scenario_world [scenario_source (0, - 180, 0, 0) [''a''] 2 2] 250
             (\<lambda>k. 500) (\<lambda>k. False))
          (scenario_source (0, - 180, 0, 0) [''a''] 2 2) 2 0 2 0
          (initial (scenario_world [scenario_source (0, - 180, 0, 0) [''a''] 2 2] 250
             (\<lambda>k. 500) (\<lambda>k. False))) = Inr s'
        \<and> \<not> Run s' \<and> failures (Trace s') = [(2, 0, 2)])"
proof -
  let ?m = "scenario_source (0, - 180, 0, 0) [''a''] 2 2"
  let ?w = "scenario_world [?m] 250 (\<lambda>k. if k = 3 then 500 else 200) (\<lambda>k. False)"
  let ?v = "scenario_world [?m] 250 (\<lambda>k. 500) (\<lambda>k. False)"
  have h1: "Run (initial ?w)" "Run (initial ?v)"
    by (simp_all add: initial_def)
  have h2: "failures (Trace (initial ?w)) = []" "failures (Trace (initial ?v)) = []"
    by (simp_all add: initial_def)
  have ev: "failures (Trace (after (source_pass ?w (initial ?w)))) = [(2, 1, 2)]"
    "SessionTileCount (after (source_pass ?w (initial ?w))) = 1"
    "SourceCounter (after (source_pass ?w (initial ?w))) = 0"
    "TotalTileCount (after (source_pass ?w (initial ?w))) = 1"
    by (simp_all add: run_defs)
  have h3: "(2, 1, 2) \<in> set (failures (Trace (after (source_pass ?w (initial ?w)))))"
    by (simp add: ev)
  have h4: "ServerPartNumber (initial ?v) < length (ServerParts ?m) \<and>
      (\<forall>j<length (ServerParts ?m).
          fst (http_get ?v (Clock (initial ?v) + j)) = 500 \<and>
          \<not> signal_at ?v (Clock (initial ?v) + j))"
    by (simp add: initial_def scenario_source_def scenario_world_def)
  obtain s' where a: "source_pass ?w (initial ?w) = Inr s'" "\<not> Run s'"
    "main_loop (Suc 0) ?w (initial ?w) =
       Some (Inr (Log (LogEnded (SessionTileCount s')) (Log LogShutdown s')))"
    "0 < SessionTileCount s' \<longrightarrow>
       StateFile s' =
         Some \<lparr>Source = SourceCounter s', StatusX = 1, StatusY = 2, StatusZ = 2,
               StatusTotalTileCount = TotalTileCount s'\<rparr>"
    using mp [OF conjunct2 [OF fatal_halt_saves_failed_tile
      [where s = "initial ?w" and w = ?w and z = 2 and x = 1 and y = 2 and n = 0
         and m = ?m and Zv = 2 and Xv = 0 and Yv = 2, OF h1(1) h2(1)]] h3]
    by (elim exE conjE) (rule that, assumption+)
  have b: "SessionTileCount s' = 1" "SourceCounter s' = 0" "TotalTileCount s' = 1"
    using ev a(1) by simp_all
  obtain s'' where c: "retry_loop ?v ?m 2 0 2 0 (initial ?v) = Inr s''" "\<not> Run s''"
    "failures (Trace s'') = [(2, 0, 2)]"
    using mp [OF conjunct1 [OF fatal_halt_saves_failed_tile
      [where s = "initial ?v" and w = ?v and m = ?m and Zv = 2 and Xv = 0 and Yv = 2
         and z = 2 and x = 1 and y = 2 and n = 0, OF h1(2) h2(2)]] h4]
    by (elim exE conjE) (rule that, assumption+)
  show ?thesis
    using h1(1) h2(1) h3 a b c by auto
qed

text \<open>
  The claim as it was stated fails on that run: the tile in column 0 was downloaded, the
  tile in column 1 failed with 500, and the state file at exit holds column 1, the failed
  tile, not column 0, the last tile that was downloaded.
\<close>

theorem fatal_halt_counterexample:
  "result_trace (program 1
     (scenario_world [scenario_source (0, - 180, 0, 0) [''a''] 2 2] 250
        (\<lambda>k. if k = 3 then 500 else 200) (\<lambda>k. False))
     None) =
   [EvLog LogStart, EvMeta 0, EvLog (LogNowProcessing 0),
    EvWriteGlobalStatus
      \<lparr>Source = 0, StatusX = 0, StatusY = 2, StatusZ = 2, StatusTotalTileCount = 0\<rparr>,
    EvLog (LogWillDownload 2 3), EvGet ''a'' 2 0 2, EvSleep 0, EvGet ''a'' 2 1 2,
    EvLog (LogErrorFailed 2 1 2), EvLog (LogErrorStatus 500), EvLog LogErrorURL,
    EvLog LogErrorRequestHeaders, EvLog LogErrorResponseHeaders,
    EvWriteTiles 0 [\<lparr>tile_z = 2, tile_x = 0, tile_y = 1, tile_data = []\<rparr>],
    EvLog (LogAdded 1 1),
    EvWriteGlobalStatus
      \<lparr>Source = 0, StatusX = 1, StatusY = 2, StatusZ = 2, StatusTotalTileCount = 1\<rparr>,
    EvLog LogShutdown, EvLog (LogEnded 1)]
   \<and> result_file (program 1
     (scenario_world [scenario_source (0, - 180, 0, 0) [''a''] 2 2] 250
        (\<lambda>k. if k = 3 then 500 else 200) (\<lambda>k. False))
     None) =
     Some \<lparr>Source = 0, StatusX = 1, StatusY = 2, StatusZ = 2, StatusTotalTileCount = 1\<rparr>"
  by (simp add: run_defs)

section \<open>What position a checkpoint records\<close>

definition saves_tile :: "nat \<Rightarrow> int \<Rightarrow> int \<Rightarrow> event \<Rightarrow> bool" where
  "saves_tile Zv Xv Yv ev =
     (case ev of
        EvWriteGlobalStatus st \<Rightarrow> StatusX st = Xv \<and> StatusY st = Yv \<and> StatusZ st = Zv
      | _ \<Rightarrow> True)"

lemma attempt_saves_tile:
  "\<exists>evs. Trace (after_attempt (attempt w m Zv Xv Yv rc s)) = Trace s @ evs
         \<and> list_all (saves_tile Zv Xv Yv) evs"
  by (auto simp: attempt_def next_server_def handle_response_def on_success_def
        flush_batch_def WriteToDB_def WriteGlobalStatus_def Log_def on_failed_def
        blocking_def saves_tile_def Let_def)

lemma retry_loop_saves_tile:
  "\<exists>evs. Trace (after (retry_loop w m Zv Xv Yv rc s)) = Trace s @ evs
         \<and> list_all (saves_tile Zv Xv Yv) evs"
proof (rule retry_loop_rule
    [where I = "\<lambda>s'. \<exists>evs. Trace s' = Trace s @ evs \<and> list_all (saves_tile Zv Xv Yv) evs"
       and Q = "\<lambda>r. \<exists>evs. Trace (after r) = Trace s @ evs \<and> list_all (saves_tile Zv Xv Yv) evs"])
  fix rc rc' and s1 s2 :: state
  assume "\<exists>evs. Trace s1 = Trace s @ evs \<and> list_all (saves_tile Zv Xv Yv) evs"
    and "attempt w m Zv Xv Yv rc s1 = Inr (rc', s2)"
  then have "\<exists>evs. Trace s2 = Trace s @ evs \<and> list_all (saves_tile Zv Xv Yv) evs"
    using attempt_saves_tile [of w m Zv Xv Yv rc s1] by (auto simp: list_all_append)
  then show "(\<exists>evs. Trace (after (Inr s2)) = Trace s @ evs \<and> list_all (saves_tile Zv Xv Yv) evs)
      \<and> (Run s2 \<longrightarrow> (\<exists>evs. Trace s2 = Trace s @ evs \<and> list_all (saves_tile Zv Xv Yv) evs))"
    by simp
next
  fix rc a and s1 :: state
  assume "\<exists>evs. Trace s1 = Trace s @ evs \<and> list_all (saves_tile Zv Xv Yv) evs"
    and "attempt w m Zv Xv Yv rc s1 = Inl a"
  then show "\<exists>evs. Trace (after (Inl a)) = Trace s @ evs \<and> list_all (saves_tile Zv Xv Yv) evs"
    using attempt_saves_tile [of w m Zv Xv Yv rc s1] by (auto simp: list_all_append)
qed simp_all

text \<open>\<open>here m src Zv Xv Yv s\<close>: the loop variables stand at the tile \<open>(Zv, Xv, Yv)\<close>, the last
  request in the trace was for that tile, the index of the server parts is in range,
  no resume is pending and the source is \<open>src\<close>.\<close>

definition here :: "mapsource \<Rightarrow> nat \<Rightarrow> nat \<Rightarrow> int \<Rightarrow> int \<Rightarrow> state \<Rightarrow> bool" where
  "here m src Zv Xv Yv s \<longleftrightarrow>
     ServerPartNumber s < length (ServerParts m) \<and> PickupDone s \<and> SourceCounter s = src
     \<and> loopZ s = Some Zv \<and> loopX s = Some Xv \<and> loopY s = Some Yv
     \<and> requests (Trace s) \<noteq> [] \<and> last (requests (Trace s)) = (Zv, Xv, Yv)"

lemma attempt_here:
  assumes "ServerPartNumber s < length (ServerParts m)" "PickupDone s" "SourceCounter s = src"
    and "loopZ s = Some Zv" "loopX s = Some Xv" "loopY s = Some Yv"
  shows "\<exists>rc' s'. attempt w m Zv Xv Yv rc s = Inr (rc', s') \<and> here m src Zv Xv Yv s'"
proof -
  have "Suc (ServerPartNumber s) mod length (ServerParts m) < length (ServerParts m)"
    using assms(1) by (intro mod_less_divisor) auto
  then show ?thesis
    using assms
    by (auto simp: attempt_def next_server_mod handle_response_def on_success_def
        flush_batch_def WriteToDB_def WriteGlobalStatus_def Log_def on_failed_def
        blocking_def here_def Let_def requests_append)
qed

lemma retry_loop_here:
  assumes "here m src Zv Xv Yv s"
  shows "\<exists>s'. retry_loop w m Zv Xv Yv rc s = Inr s' \<and> here m src Zv Xv Yv s'"
proof (rule retry_loop_rule
    [where I = "here m src Zv Xv Yv" and Q = "\<lambda>r. \<exists>s'. r = Inr s' \<and> here m src Zv Xv Yv s'"])
  fix rc s rc' s'
  assume "here m src Zv Xv Yv s" "attempt w m Zv Xv Yv rc s = Inr (rc', s')"
  then have "here m src Zv Xv Yv s'"
    using attempt_here [of s m src Zv Xv Yv w rc] by (auto simp: here_def)
  then show "(\<exists>s''. Inr s' = Inr s'' \<and> here m src Zv Xv Yv s'') \<and> (Run s' \<longrightarrow> here m src Zv Xv Yv s')"
    by simp
next
  fix rc s a
  assume "here m src Zv Xv Yv s" "attempt w m Zv Xv Yv rc s = Inl a"
  then show "\<exists>s'. Inl a = Inr s' \<and> here m src Zv Xv Yv s'"
    using attempt_here [of s m src Zv Xv Yv w rc] by (auto simp: here_def)
qed (use assms in auto)

lemma retry_loop_visits:
  assumes "ServerPartNumber s < length (ServerParts m)" "PickupDone s" "SourceCounter s = src"
    and "loopZ s = Some Zv" "loopX s = Some Xv" "loopY s = Some Yv"
  shows "\<exists>s'. retry_loop w m Zv Xv Yv 0 s = Inr s' \<and> here m src Zv Xv Yv s'"
proof -
  obtain rc' s1 where a: "attempt w m Zv Xv Yv 0 s = Inr (rc', s1)" and h: "here m src Zv Xv Yv s1"
    using attempt_here [OF assms] by blast
  have ne: "ServerParts m \<noteq> []"
    using assms(1) by auto
  show ?thesis
  proof (cases "Run s1")
    case False
    then show ?thesis
      using a h ne by (simp add: retry_loop.simps [of w m Zv Xv Yv 0 s])
  next
    case True
    then show ?thesis
      using a h ne retry_loop_here [OF h, of w rc']
      by (simp add: retry_loop.simps [of w m Zv Xv Yv 0 s])
  qed
qed

lemma x_loop_here:
  assumes "ServerPartNumber s < length (ServerParts m)" "PickupDone s" "SourceCounter s = src"
    and "loopZ s = Some Zv" "loopY s = Some Yv"
    and "Xs = [] \<longrightarrow> (\<exists>Xv. here m src Zv Xv Yv s)"
  shows "\<exists>s' Xv. x_loop w m Zv Yv Xs s = Inr s' \<and> here m src Zv Xv Yv s'"
  using assms
proof (induction Xs arbitrary: s)
  case Nil
  then show ?case by auto
next
  case (Cons Xv Xs)
  obtain s1 where r: "retry_loop w m Zv Xv Yv 0 (s\<lparr>loopX := Some Xv\<rparr>) = Inr s1"
    and h: "here m src Zv Xv Yv s1"
    using retry_loop_visits [of "s\<lparr>loopX := Some Xv\<rparr>" m src Zv Xv Yv w] Cons.prems by auto
  show ?case
  proof (cases "Run s1")
    case False
    then show ?thesis using r h by auto
  next
    case True
    let ?s2 = "blocking w (EvSleep (SourceCounter s1)) s1"
    have h2: "here m src Zv Xv Yv ?s2"
      using h by (simp add: here_def blocking_def requests_append)
    then have "\<exists>s' Xv. x_loop w m Zv Yv Xs ?s2 = Inr s' \<and> here m src Zv Xv Yv s'"
      by (intro Cons.IH) (auto simp: here_def)
    then show ?thesis using r True by simp
  qed
qed

lemma y_loop_here:
  assumes "ServerPartNumber s < length (ServerParts m)" "PickupDone s" "SourceCounter s = src"
    and "loopZ s = Some Zv" and "min_x \<le> max_x"
    and "Ys = [] \<longrightarrow> (\<exists>Xv Yv. here m src Zv Xv Yv s)"
  shows "\<exists>s' Xv Yv. y_loop w m Zv min_x max_x Ys s = Inr s' \<and> here m src Zv Xv Yv s'"
  using assms
proof (induction Ys arbitrary: s)
  case Nil
  then show ?case by auto
next
  case (Cons Yv Ys)
  have sx: "start_x min_x (s\<lparr>loopY := Some Yv\<rparr>) = Inr (min_x, s\<lparr>loopY := Some Yv\<rparr>)"
    using Cons.prems(2) by (simp add: start_x_def)
  have ne: "[min_x..max_x] \<noteq> []"
    using Cons.prems(5) by (simp add: upto_rec1)
  obtain s1 Xv where x: "x_loop w m Zv Yv [min_x..max_x] (s\<lparr>loopY := Some Yv\<rparr>) = Inr s1"
    and h: "here m src Zv Xv Yv s1"
    using x_loop_here [of "s\<lparr>loopY := Some Yv\<rparr>" m src Zv Yv "[min_x..max_x]" w] Cons.prems ne
    by auto
  show ?case
  proof (cases "Run s1")
    case False
    then show ?thesis using sx x h by auto
  next
    case True
    have "\<exists>s' Xv Yv. y_loop w m Zv min_x max_x Ys s1 = Inr s' \<and> here m src Zv Xv Yv s'"
      using h Cons.prems(5) by (intro Cons.IH) (auto simp: here_def)
    then show ?thesis using sx x True by simp
  qed
qed

lemma z_loop_here:
  assumes "ServerPartNumber s < length (ServerParts m)" "PickupDone s" "SourceCounter s = src"
    and "\<forall>Zv\<in>set Zs. case tile_rect (corner w) (BoundingBox m) Zv of
           (min_x, min_y, max_x, max_y) \<Rightarrow> min_x \<le> max_x \<and> min_y \<le> max_y"
    and "Zs = [] \<longrightarrow> (\<exists>Zv Xv Yv. here m src Zv Xv Yv s)"
  shows "\<exists>s' Zv Xv Yv. z_loop w m Zs s = Inr s' \<and> here m src Zv Xv Yv s'"
  using assms
proof (induction Zs arbitrary: s)
  case Nil
  then show ?case by auto
next
  case (Cons Zv Zs)
  obtain min_x min_y max_x max_y
    where rect: "tile_rect (corner w) (BoundingBox m) Zv = (min_x, min_y, max_x, max_y)"
    by (cases "tile_rect (corner w) (BoundingBox m) Zv") auto
  then have ne: "min_x \<le> max_x" "min_y \<le> max_y"
    using Cons.prems(4) by auto
  define s1 where "s1 = zoom_head (min_x, min_y, max_x, max_y) Zv (s\<lparr>loopZ := Some Zv\<rparr>)"
  have f: "ServerPartNumber s1 < length (ServerParts m)" "PickupDone s1" "SourceCounter s1 = src"
    "loopZ s1 = Some Zv"
    using Cons.prems(1,2,3) by (simp_all add: s1_def zoom_head_def WriteGlobalStatus_def Log_def Let_def)
  have sy: "start_y min_y s1 = Inr min_y"
    using f(2) by (simp add: start_y_def)
  have "[min_y..max_y] \<noteq> []"
    using ne(2) by (simp add: upto_rec1)
  then obtain s2 Xv Yv where y: "y_loop w m Zv min_x max_x [min_y..max_y] s1 = Inr s2"
    and h: "here m src Zv Xv Yv s2"
    using y_loop_here [OF f ne(1), of "[min_y..max_y]" w] by auto
  show ?case
  proof (cases "Run s2")
    case False
    then show ?thesis using rect sy y h by (auto simp: s1_def [symmetric])
  next
    case True
    have "\<exists>s' Zv Xv Yv. z_loop w m Zs s2 = Inr s' \<and> here m src Zv Xv Yv s'"
      using h Cons.prems(4) by (intro Cons.IH) (auto simp: here_def)
    then show ?thesis using rect sy y True by (simp add: s1_def [symmetric])
  qed
qed

lemma map_body_here:
  assumes "ServerPartNumber s < length (ServerParts m)" "PickupDone s" "min_z s \<le> max_z m"
    and "\<forall>Zv\<in>set [min_z s..<Suc (max_z m)]. case tile_rect (corner w) (BoundingBox m) Zv of
           (min_x, min_y, max_x, max_y) \<Rightarrow> min_x \<le> max_x \<and> min_y \<le> max_y"
  shows "\<exists>s1 s' Zv Xv Yv.
           z_loop w m [min_z s..<Suc (max_z m)] (Log (LogNowProcessing (SourceCounter s)) s) = Inr s1
         \<and> map_body w m s = Inr s'
         \<and> requests (Trace s') \<noteq> [] \<and> last (requests (Trace s')) = (Zv, Xv, Yv)
         \<and> StateFile s' =
             (if 0 < SessionTileCount s1
              then Some \<lparr>Source = SourceCounter s, StatusX = Xv, StatusY = Yv, StatusZ = Zv,
                         StatusTotalTileCount = TotalTileCount s1 + length (VectorTiles s1)\<rparr>
              else StateFile s1)"
proof -
  let ?s0 = "Log (LogNowProcessing (SourceCounter s)) s"
  have ne: "[min_z s..<Suc (max_z m)] \<noteq> []"
    using assms(3) by simp
  obtain s1 Zv Xv Yv where z: "z_loop w m [min_z s..<Suc (max_z m)] ?s0 = Inr s1"
    and h: "here m (SourceCounter s) Zv Xv Yv s1"
    using z_loop_here [of ?s0 m "SourceCounter s" "[min_z s..<Suc (max_z m)]" w] assms ne
    by (auto simp: Log_def)
  have "map_body w m s = Inr (next_source w ((after (final_status (final_flush s1)))\<lparr>VectorTiles := []\<rparr>))"
    using z h
    by (auto simp: map_body_def final_status_def final_flush_def WriteToDB_def Log_def here_def
        split: prod.splits)
  moreover have "requests (Trace (next_source w ((after (final_status (final_flush s1)))\<lparr>VectorTiles := []\<rparr>)))
      = requests (Trace s1)"
    using h
    by (auto simp: final_status_def final_flush_def WriteToDB_def Log_def here_def next_source_def
        count_pass_def WriteMapStatus_def blocking_def WriteGlobalStatus_def Let_def requests_append)
  moreover have "StateFile (next_source w ((after (final_status (final_flush s1)))\<lparr>VectorTiles := []\<rparr>))
      = (if 0 < SessionTileCount s1
         then Some \<lparr>Source = SourceCounter s, StatusX = Xv, StatusY = Yv, StatusZ = Zv,
                   StatusTotalTileCount = TotalTileCount s1 + length (VectorTiles s1)\<rparr>
         else StateFile s1)"
    using h
    by (auto simp: final_status_def final_flush_def WriteToDB_def Log_def here_def next_source_def
        count_pass_def WriteMapStatus_def blocking_def WriteGlobalStatus_def Let_def)
  ultimately show ?thesis
    using z h unfolding here_def by (intro exI [of _ s1] exI conjI) (assumption | simp)+
qed




section \<open>Resuming from the state file\<close>

text \<open>The trace only grows: whatever it begins with, it begins with ever after.\<close>

lemma grid_keeps_prefix: "grid_keeps w m (\<lambda>s. prefix T (Trace s))"
  unfolding grid_keeps_def
proof (intro allI impI conjI)
  fix Zv Xv Yv rc and s :: state
  assume "prefix T (Trace s)"
  then show "prefix T (Trace (after_attempt (attempt w m Zv Xv Yv rc s)))"
    using attempt_saves_tile [of w m Zv Xv Yv rc s] by (auto simp: prefix_def)
qed (auto simp: prefix_def blocking_def zoom_head_def WriteGlobalStatus_def Log_def Let_def)

lemma pass_keeps_prefix: "pass_keeps w (\<lambda>s. prefix T (Trace s))"
  unfolding pass_keeps_def
  by (auto simp: prefix_def Log_def final_flush_def WriteToDB_def final_status_def
        WriteGlobalStatus_def next_source_def count_pass_def WriteMapStatus_def blocking_def
        source_setup_def Let_def
      split: option.splits)

lemma grid_keeps_PickupDone: "grid_keeps w m PickupDone"
  unfolding grid_keeps_def
  by (auto simp: attempt_def next_server_def handle_response_def on_success_def
        flush_batch_def WriteToDB_def WriteGlobalStatus_def Log_def on_failed_def
        blocking_def zoom_head_def Let_def)

lemma pass_keeps_PickupDone: "pass_keeps w PickupDone"
  unfolding pass_keeps_def
  by (auto simp: Log_def final_flush_def WriteToDB_def final_status_def
        WriteGlobalStatus_def next_source_def count_pass_def WriteMapStatus_def blocking_def
        source_setup_def Let_def
      split: option.splits)

text \<open>The first turn of each loop: what holds after it and is kept by every step holds
  of the result of the loop.\<close>

lemma retry_loop_first:
  assumes "grid_keeps w m P" "attempt w m Zv Xv Yv rc s = Inr (rc', s')"
    and "rc < length (ServerParts m)" "P s'"
  shows "P (after (retry_loop w m Zv Xv Yv rc s))"
  using assms retry_loop_keeps [OF assms(1) assms(4), of Zv Xv Yv rc']
  by (simp add: retry_loop.simps [of w m Zv Xv Yv rc s])

lemma x_loop_first:
  assumes "grid_keeps w m P" "P (after (retry_loop w m Zv Xv Yv 0 (s\<lparr>loopX := Some Xv\<rparr>)))"
  shows "P (after (x_loop w m Zv Yv (Xv # Xs) s))"
proof (cases "retry_loop w m Zv Xv Yv 0 (s\<lparr>loopX := Some Xv\<rparr>)")
  case (Inl a)
  then show ?thesis using assms(2) by simp
next
  case (Inr s')
  then have "P s'" using assms(2) by simp
  then have "P (blocking w (EvSleep (SourceCounter s')) s')"
    using assms(1) unfolding grid_keeps_def by blast
  then have "P (after (x_loop w m Zv Yv Xs (blocking w (EvSleep (SourceCounter s')) s')))"
    by (rule x_loop_keeps [OF assms(1)])
  then show ?thesis using Inr \<open>P s'\<close> by simp
qed

lemma y_loop_first:
  assumes "grid_keeps w m P" "start_x min_x (s\<lparr>loopY := Some Yv\<rparr>) = Inr (StartX, s1)"
    and "P (after (x_loop w m Zv Yv [StartX..max_x] s1))"
  shows "P (after (y_loop w m Zv min_x max_x (Yv # Ys) s))"
proof (cases "x_loop w m Zv Yv [StartX..max_x] s1")
  case (Inl a)
  then show ?thesis using assms(2,3) by simp
next
  case (Inr s')
  then have "P s'" using assms(3) by simp
  then have "P (after (y_loop w m Zv min_x max_x Ys s'))"
    by (rule y_loop_keeps [OF assms(1)])
  then show ?thesis using Inr assms(2) \<open>P s'\<close> by simp
qed

lemma z_loop_first:
  assumes "grid_keeps w m P"
    and "tile_rect (corner w) (BoundingBox m) Zv = (min_x, min_y, max_x, max_y)"
    and "s1 = zoom_head (min_x, min_y, max_x, max_y) Zv (s\<lparr>loopZ := Some Zv\<rparr>)"
    and "start_y min_y s1 = Inr StartY"
    and "P (after (y_loop w m Zv min_x max_x [StartY..max_y] s1))"
  shows "P (after (z_loop w m (Zv # Zs) s))"
proof (cases "y_loop w m Zv min_x max_x [StartY..max_y] s1")
  case (Inl a)
  then show ?thesis using assms(2,4,5) by (simp add: assms(3) [symmetric])
next
  case (Inr s')
  then have "P s'" using assms(5) by simp
  then have "P (after (z_loop w m Zs s'))"
    by (rule z_loop_keeps [OF assms(1)])
  then show ?thesis using Inr assms(2,4) \<open>P s'\<close> by (simp add: assms(3) [symmetric])
qed

lemma map_body_first:
  assumes "pass_keeps w P"
    and "P (after (z_loop w m [min_z s..<Suc (max_z m)]
                      (Log (LogNowProcessing (SourceCounter s)) s)))"
  shows "P (after (map_body w m s))"
proof (cases "z_loop w m [min_z s..<Suc (max_z m)] (Log (LogNowProcessing (SourceCounter s)) s)")
  case (Inl a)
  then show ?thesis using assms(2) map_body_cases(1) [OF Inl] by simp
next
  case (Inr s1)
  then have "P (final_flush s1)"
    using assms unfolding pass_keeps_def by simp
  then have f: "P (after (final_status (final_flush s1)))"
    using assms(1) unfolding pass_keeps_def by blast
  show ?thesis
  proof (cases "final_status (final_flush s1)")
    case (Inl a)
    then show ?thesis using f map_body_cases(2) [OF Inr Inl] by simp
  next
    case inr: (Inr s2)
    then have "P (next_source w (s2\<lparr>VectorTiles := []\<rparr>))"
      using f assms(1) unfolding pass_keeps_def by simp
    then show ?thesis using map_body_cases(3) [OF Inr inr] by simp
  qed
qed

text \<open>The head of a pass: when the zoom levels from \<open>min_z\<close> to \<open>max_z\<close> are not empty, the
  trace of the pass goes on with the log line, the state file and the log line of the
  first zoom level, which is \<open>min_z\<close>.\<close>

lemma map_body_head:
  assumes "min_z s \<le> max_z m"
    and "tile_rect (corner w) (BoundingBox m) (min_z s) = (min_x, min_y, max_x, max_y)"
    and "PickupDone s \<or> PickupStatus s \<noteq> None"
  shows "prefix (Trace s @
           [EvLog (LogNowProcessing (SourceCounter s)),
            EvWriteGlobalStatus
              \<lparr>Source = SourceCounter s, StatusX = min_x, StatusY = min_y,
                StatusZ = min_z s, StatusTotalTileCount = TotalTileCount s\<rparr>,
            EvLog (LogWillDownload (min_z s) ((max_x - min_x + 1) * (max_y - min_y + 1)))])
         (Trace (after (map_body w m s)))"
proof -
  let ?T = "Trace s @
           [EvLog (LogNowProcessing (SourceCounter s)),
            EvWriteGlobalStatus
              \<lparr>Source = SourceCounter s, StatusX = min_x, StatusY = min_y,
                StatusZ = min_z s, StatusTotalTileCount = TotalTileCount s\<rparr>,
            EvLog (LogWillDownload (min_z s) ((max_x - min_x + 1) * (max_y - min_y + 1)))]"
  let ?P = "\<lambda>s'. prefix ?T (Trace s')"
  let ?s0 = "Log (LogNowProcessing (SourceCounter s)) s"
  define s1 where "s1 = zoom_head (min_x, min_y, max_x, max_y) (min_z s) (?s0\<lparr>loopZ := Some (min_z s)\<rparr>)"
  have t1: "Trace s1 = ?T"
    by (simp add: s1_def zoom_head_def WriteGlobalStatus_def Log_def Let_def)
  have "PickupDone s1 \<or> PickupStatus s1 \<noteq> None"
    using assms(3) by (simp add: s1_def zoom_head_def WriteGlobalStatus_def Log_def Let_def)
  then obtain StartY where sy: "start_y min_y s1 = Inr StartY"
    using start_y_ok by blast
  have "?P s1" by (simp add: t1)
  then have "?P (after (y_loop w m (min_z s) min_x max_x [StartY..max_y] s1))"
    by (rule y_loop_keeps [OF grid_keeps_prefix])
  then have "?P (after (z_loop w m (min_z s # [Suc (min_z s)..<Suc (max_z m)]) ?s0))"
    by (rule z_loop_first [OF grid_keeps_prefix assms(2) s1_def sy])
  moreover have "[min_z s..<Suc (max_z m)] = min_z s # [Suc (min_z s)..<Suc (max_z m)]"
    using assms(1) by (simp add: upt_conv_Cons del: upt_Suc)
  ultimately have "?P (after (z_loop w m [min_z s..<Suc (max_z m)] ?s0))"
    by (simp only:)
  then show ?thesis
    by (rule map_body_first [OF pass_keeps_prefix])
qed

lemma handle_response_trace:
  "\<exists>evs. Trace (snd (handle_response w M Zv Xv Yv rc answer s)) = Trace s @ evs"
  by (simp add: handle_response_def on_success_def flush_batch_def WriteToDB_def
        WriteGlobalStatus_def Log_def on_failed_def Let_def)

lemma attempt_first_request:
  assumes "ServerPartNumber s < length (ServerParts m)"
  shows "\<exists>rc' s'. attempt w m Zv Xv Yv rc s = Inr (rc', s')
           \<and> prefix (Trace s @ [EvGet (ServerParts m ! ServerPartNumber s) Zv Xv Yv]) (Trace s')"
proof -
  let ?n = "Suc (ServerPartNumber s) mod length (ServerParts m)"
  let ?b = "blocking w (EvGet (ServerParts m ! ServerPartNumber s) Zv Xv Yv)
              (s\<lparr>ServerPartNumber := ?n\<rparr>)"
  let ?h = "handle_response w (length (ServerParts m)) Zv Xv Yv rc (http_get w (Clock s)) ?b"
  have a: "attempt w m Zv Xv Yv rc s = Inr ?h"
    using next_server_mod [OF assms] by (simp add: attempt_def)
  obtain evs where "Trace (snd ?h) = Trace ?b @ evs"
    using handle_response_trace by blast
  then have "prefix (Trace s @ [EvGet (ServerParts m ! ServerPartNumber s) Zv Xv Yv])
      (Trace (snd ?h))"
    by (simp add: blocking_def prefix_def)
  then show ?thesis
    using a by (cases ?h) auto
qed

text \<open>The head of the pass that resumes: \<open>PickupDone\<close> is false, and the position read
  from the state file lies in the rectangle of its zoom level.\<close>

lemma map_body_resume:
  assumes "\<not> PickupDone s" "PickupStatus s = Some p" "min_z s \<le> max_z m"
    and "tile_rect (corner w) (BoundingBox m) (min_z s) = (min_x, min_y, max_x, max_y)"
    and "StatusY p \<le> max_y" "StatusX p \<le> max_x"
    and "ServerPartNumber s < length (ServerParts m)"
  shows "prefix (Trace s @
           [EvLog (LogNowProcessing (SourceCounter s)),
            EvWriteGlobalStatus
              \<lparr>Source = SourceCounter s, StatusX = min_x, StatusY = min_y,
                StatusZ = min_z s, StatusTotalTileCount = TotalTileCount s\<rparr>,
            EvLog (LogWillDownload (min_z s) ((max_x - min_x + 1) * (max_y - min_y + 1))),
            EvGet (ServerParts m ! ServerPartNumber s) (min_z s) (StatusX p) (StatusY p)])
         (Trace (after (map_body w m s)))"
proof -
  let ?Z = "min_z s" and ?X = "StatusX p" and ?Y = "StatusY p"
  let ?T = "Trace s @
           [EvLog (LogNowProcessing (SourceCounter s)),
            EvWriteGlobalStatus
              \<lparr>Source = SourceCounter s, StatusX = min_x, StatusY = min_y,
                StatusZ = min_z s, StatusTotalTileCount = TotalTileCount s\<rparr>,
            EvLog (LogWillDownload (min_z s) ((max_x - min_x + 1) * (max_y - min_y + 1))),
            EvGet (ServerParts m ! ServerPartNumber s) (min_z s) (StatusX p) (StatusY p)]"
  let ?P = "\<lambda>s'. prefix ?T (Trace s')"
  let ?s0 = "Log (LogNowProcessing (SourceCounter s)) s"
  define s1 where "s1 = zoom_head (min_x, min_y, max_x, max_y) ?Z (?s0\<lparr>loopZ := Some ?Z\<rparr>)"
  define s2 where "s2 = s1\<lparr>loopY := Some ?Y, PickupDone := True\<rparr>"
  define s3 where "s3 = s2\<lparr>loopX := Some ?X\<rparr>"
  have f1: "\<not> PickupDone s1" "PickupStatus s1 = Some p"
    "ServerPartNumber s1 = ServerPartNumber s"
    "Trace s1 = Trace s @
           [EvLog (LogNowProcessing (SourceCounter s)),
            EvWriteGlobalStatus
              \<lparr>Source = SourceCounter s, StatusX = min_x, StatusY = min_y,
                StatusZ = min_z s, StatusTotalTileCount = TotalTileCount s\<rparr>,
            EvLog (LogWillDownload (min_z s) ((max_x - min_x + 1) * (max_y - min_y + 1)))]"
    using assms(1,2)
    by (simp_all add: s1_def zoom_head_def WriteGlobalStatus_def Log_def Let_def)
  have sy: "start_y min_y s1 = Inr ?Y"
    using f1 by (simp add: start_y_def)
  have sx: "start_x min_x (s1\<lparr>loopY := Some ?Y\<rparr>) = Inr (?X, s2)"
    using f1 by (simp add: start_x_def s2_def)
  have f3: "ServerPartNumber s3 = ServerPartNumber s" "Trace s3 = Trace s1"
    using f1 by (simp_all add: s3_def s2_def)
  obtain rc' s4 where a: "attempt w m ?Z ?X ?Y 0 s3 = Inr (rc', s4)"
    and p4: "prefix (Trace s3 @ [EvGet (ServerParts m ! ServerPartNumber s3) ?Z ?X ?Y]) (Trace s4)"
    using attempt_first_request [of s3 m w ?Z ?X ?Y 0] assms(7) f3 by auto
  have "?P s4"
    using p4 f3 f1 by simp
  have pos: "0 < length (ServerParts m)"
    using assms(7) by (cases "ServerParts m") auto
  have "?P (after (retry_loop w m ?Z ?X ?Y 0 s3))"
    by (rule retry_loop_first [OF grid_keeps_prefix a pos \<open>?P s4\<close>])
  then have "?P (after (x_loop w m ?Z ?Y (?X # [?X + 1..max_x]) s2))"
    unfolding s3_def by (rule x_loop_first [OF grid_keeps_prefix])
  moreover have "[?X..max_x] = ?X # [?X + 1..max_x]"
    using assms(6) by (simp add: upto_rec1)
  ultimately have "?P (after (x_loop w m ?Z ?Y [?X..max_x] s2))"
    by (simp only:)
  then have "?P (after (y_loop w m ?Z min_x max_x (?Y # [?Y + 1..max_y]) s1))"
    by (rule y_loop_first [OF grid_keeps_prefix sx])
  moreover have "[?Y..max_y] = ?Y # [?Y + 1..max_y]"
    using assms(5) by (simp add: upto_rec1)
  ultimately have "?P (after (y_loop w m ?Z min_x max_x [?Y..max_y] s1))"
    by (simp only:)
  then have "?P (after (z_loop w m (?Z # [Suc ?Z..<Suc (max_z m)]) ?s0))"
    by (rule z_loop_first [OF grid_keeps_prefix assms(4) s1_def sy])
  moreover have "[?Z..<Suc (max_z m)] = ?Z # [Suc ?Z..<Suc (max_z m)]"
    using assms(3) by (simp add: upt_conv_Cons del: upt_Suc)
  ultimately have "?P (after (z_loop w m [?Z..<Suc (max_z m)] ?s0))"
    by (simp only:)
  then show ?thesis
    by (rule map_body_first [OF pass_keeps_prefix])
qed

lemma source_pass_running:
  assumes "SourceCounter s < length (Maplist w)" "Run s" "\<not> signal_at w (Clock s)"
  shows "source_pass w s =
           map_body w (Maplist w ! SourceCounter s)
             (source_setup w (Maplist w ! SourceCounter s) s)"
  using assms by (simp add: source_pass_def map_loop_once source_setup_def blocking_def Let_def)

lemma source_pass_PickupDone:
  "source_pass w s = Inr s' \<Longrightarrow> Run s' \<Longrightarrow> PickupDone s'"
  by (auto simp: source_pass_def map_loop_once map_body_def next_source_def source_setup_def
        blocking_def Let_def
      split: if_splits sum.splits simp del: upt_Suc)




section \<open>Seven tiles and a flush threshold of three\<close>

lemma written_batches_append:
  "written_batches (xs @ ys) = written_batches xs @ written_batches ys"
  by (induction xs rule: written_batches.induct) simp_all

lemma logged_totals_append: "logged_totals (xs @ ys) = logged_totals xs @ logged_totals ys"
  by (induction xs rule: logged_totals.induct) simp_all

text \<open>A tile whose first request is answered 200: one attempt, and the tile is buffered.\<close>

lemma retry_loop_success:
  assumes "ServerPartNumber s < length (ServerParts m)" "fst (http_get w (Clock s)) = 200"
  shows "retry_loop w m Zv Xv Yv 0 s =
     Inr (on_success w Zv Xv Yv (snd (http_get w (Clock s)))
            (blocking w (EvGet (ServerParts m ! ServerPartNumber s) Zv Xv Yv)
               (s\<lparr>ServerPartNumber := Suc (ServerPartNumber s) mod length (ServerParts m)\<rparr>)))"
proof -
  have pos: "0 < length (ServerParts m)"
    using assms(1) by (cases "ServerParts m") auto
  have "attempt w m Zv Xv Yv 0 s =
     Inr (length (ServerParts m),
          on_success w Zv Xv Yv (snd (http_get w (Clock s)))
            (blocking w (EvGet (ServerParts m ! ServerPartNumber s) Zv Xv Yv)
               (s\<lparr>ServerPartNumber := Suc (ServerPartNumber s) mod length (ServerParts m)\<rparr>)))"
    using assms(2) next_server_mod [OF assms(1)] by (simp add: attempt_def handle_response_def)
  then show ?thesis
    by (rule retry_loop_last [OF _ pos]) simp
qed

lemma on_success_fields:
  "Run (on_success w Zv Xv Yv body s) = Run s"
  "Clock (on_success w Zv Xv Yv body s) = Clock s"
  "ServerPartNumber (on_success w Zv Xv Yv body s) = ServerPartNumber s"
  "SourceCounter (on_success w Zv Xv Yv body s) = SourceCounter s"
  "TotalTileCount (on_success w Zv Xv Yv body s) =
     (if Suc (length (VectorTiles s)) = WriteInterval w
      then TotalTileCount s + WriteInterval w else TotalTileCount s)"
  "written_batches (Trace (on_success w Zv Xv Yv body s)) =
     written_batches (Trace s) @
     (if Suc (length (VectorTiles s)) = WriteInterval w then [WriteInterval w] else [])"
  "logged_totals (Trace (on_success w Zv Xv Yv body s)) =
     logged_totals (Trace s) @
     (if Suc (length (VectorTiles s)) = WriteInterval w
      then [(WriteInterval w, TotalTileCount s + WriteInterval w)] else [])"
  by (auto simp: on_success_def flush_batch_def WriteToDB_def WriteGlobalStatus_def Log_def
        Let_def written_batches_append logged_totals_append)

text \<open>A row of tiles that are all answered 200 at the first request, with no signal:
  the buffer is flushed each time it reaches the threshold.\<close>

lemma x_loop_all_success:
  assumes "0 < WriteInterval w" "length (VectorTiles s) < WriteInterval w" "Run s"
    and "ServerPartNumber s < length (ServerParts m)"
    and "\<forall>j<length Xs. fst (http_get w (Clock s + 2 * j)) = 200"
    and "\<forall>j<2 * length Xs. \<not> signal_at w (Clock s + j)"
  shows "\<exists>s'. x_loop w m Zv Yv Xs s = Inr s' \<and> Run s'
           \<and> SourceCounter s' = SourceCounter s
           \<and> length (VectorTiles s') =
               (length (VectorTiles s) + length Xs) mod WriteInterval w
           \<and> TotalTileCount s' = TotalTileCount s
               + ((length (VectorTiles s) + length Xs) div WriteInterval w) * WriteInterval w
           \<and> written_batches (Trace s') = written_batches (Trace s)
               @ replicate ((length (VectorTiles s) + length Xs) div WriteInterval w)
                   (WriteInterval w)
           \<and> logged_totals (Trace s') = logged_totals (Trace s)
               @ map (\<lambda>j. (WriteInterval w, TotalTileCount s + Suc j * WriteInterval w))
                   [0..<(length (VectorTiles s) + length Xs) div WriteInterval w]"
  using assms(2-)
proof (induction Xs arbitrary: s)
  case Nil
  then show ?case by simp
next
  case (Cons Xv Xs)
  let ?W = "WriteInterval w"
  let ?b = "length (VectorTiles s)"
  let ?T = "TotalTileCount s"
  let ?sa = "s\<lparr>loopX := Some Xv\<rparr>"
  let ?sb = "blocking w (EvGet (ServerParts m ! ServerPartNumber ?sa) Zv Xv Yv)
               (?sa\<lparr>ServerPartNumber := Suc (ServerPartNumber ?sa) mod length (ServerParts m)\<rparr>)"
  define s1 where "s1 = on_success w Zv Xv Yv (snd (http_get w (Clock ?sa))) ?sb"
  define s2 where "s2 = blocking w (EvSleep (SourceCounter s1)) s1"
  have ok: "fst (http_get w (Clock s)) = 200" and sig0: "\<not> signal_at w (Clock s)"
    and sig1: "\<not> signal_at w (Suc (Clock s))"
    using Cons.prems(4) Cons.prems(5) [rule_format, of 0] Cons.prems(5) [rule_format, of 1]
    by auto
  have r: "retry_loop w m Zv Xv Yv 0 ?sa = Inr s1"
    unfolding s1_def using Cons.prems(3) ok by (intro retry_loop_success) simp_all
  have md: "Suc (ServerPartNumber s) mod length (ServerParts m) < length (ServerParts m)"
    using Cons.prems(3) by (intro mod_less_divisor) auto
  have fb: "Run ?sb" "Clock ?sb = Suc (Clock s)" "VectorTiles ?sb = VectorTiles s"
    "TotalTileCount ?sb = ?T" "SourceCounter ?sb = SourceCounter s"
    "written_batches (Trace ?sb) = written_batches (Trace s)"
    "logged_totals (Trace ?sb) = logged_totals (Trace s)"
    "ServerPartNumber ?sb < length (ServerParts m)"
    using Cons.prems(2) sig0 md
    by (simp_all add: blocking_def written_batches_append logged_totals_append)
  have f1: "Run s1" "Clock s1 = Suc (Clock s)" "SourceCounter s1 = SourceCounter s"
    "ServerPartNumber s1 < length (ServerParts m)"
    "length (VectorTiles s1) = (if Suc ?b = ?W then 0 else Suc ?b)"
    "TotalTileCount s1 = (if Suc ?b = ?W then ?T + ?W else ?T)"
    "written_batches (Trace s1) =
       written_batches (Trace s) @ (if Suc ?b = ?W then [?W] else [])"
    "logged_totals (Trace s1) =
       logged_totals (Trace s) @ (if Suc ?b = ?W then [(?W, ?T + ?W)] else [])"
    unfolding s1_def using fb by (simp_all add: on_success_fields on_success_buffer)
  have f2: "Run s2" "Clock s2 = Clock s + 2" "SourceCounter s2 = SourceCounter s"
    "ServerPartNumber s2 < length (ServerParts m)"
    "length (VectorTiles s2) = (if Suc ?b = ?W then 0 else Suc ?b)"
    "TotalTileCount s2 = (if Suc ?b = ?W then ?T + ?W else ?T)"
    "written_batches (Trace s2) =
       written_batches (Trace s) @ (if Suc ?b = ?W then [?W] else [])"
    "logged_totals (Trace s2) =
       logged_totals (Trace s) @ (if Suc ?b = ?W then [(?W, ?T + ?W)] else [])"
    unfolding s2_def using f1 sig1
    by (simp_all add: blocking_def written_batches_append logged_totals_append)
  have lt2: "length (VectorTiles s2) < ?W"
    using f2(5) Cons.prems(1) assms(1) by (simp split: if_splits)
  have ans: "\<forall>j<length Xs. fst (http_get w (Clock s2 + 2 * j)) = 200"
  proof (intro allI impI)
    fix j assume "j < length Xs"
    then show "fst (http_get w (Clock s2 + 2 * j)) = 200"
      using Cons.prems(4) [rule_format, of "Suc j"] f2(2) by simp
  qed
  have sig: "\<forall>j<2 * length Xs. \<not> signal_at w (Clock s2 + j)"
  proof (intro allI impI)
    fix j assume "j < 2 * length Xs"
    then show "\<not> signal_at w (Clock s2 + j)"
      using Cons.prems(5) [rule_format, of "j + 2"] f2(2) by (simp add: add.commute add.left_commute)
  qed
  obtain s' where x: "x_loop w m Zv Yv Xs s2 = Inr s'" and run: "Run s'"
    and src: "SourceCounter s' = SourceCounter s2"
    and buf: "length (VectorTiles s') = (length (VectorTiles s2) + length Xs) mod ?W"
    and tot: "TotalTileCount s' = TotalTileCount s2
               + ((length (VectorTiles s2) + length Xs) div ?W) * ?W"
    and wb: "written_batches (Trace s') = written_batches (Trace s2)
               @ replicate ((length (VectorTiles s2) + length Xs) div ?W) ?W"
    and lg: "logged_totals (Trace s') = logged_totals (Trace s2)
               @ map (\<lambda>j. (?W, TotalTileCount s2 + Suc j * ?W))
                   [0..<(length (VectorTiles s2) + length Xs) div ?W]"
    using Cons.IH [OF lt2 f2(1) f2(4) ans sig] by blast
  have whole: "x_loop w m Zv Yv (Xv # Xs) s = Inr s'"
    using r f1(1) x by (simp add: s2_def)
  show ?case
  proof (cases "Suc ?b = ?W")
    case False
    then have "length (VectorTiles s2) + length Xs = ?b + length (Xv # Xs)"
      using f2(5) by simp
    then show ?thesis
      using whole run src buf tot wb lg f2 False by simp
  next
    case True
    then have b2: "length (VectorTiles s2) = 0" using f2(5) by simp
    have sum: "?b + length (Xv # Xs) = ?W + length Xs"
      using True by simp
    have d: "(?b + length (Xv # Xs)) div ?W = Suc (length Xs div ?W)"
      and dm: "(?b + length (Xv # Xs)) mod ?W = length Xs mod ?W"
      unfolding sum using assms(1) by simp_all
    have "map (\<lambda>j. (?W, ?T + Suc j * ?W)) [0..<Suc (length Xs div ?W)] =
        (?W, ?T + ?W) # map (\<lambda>j. (?W, (?T + ?W) + Suc j * ?W)) [0..<length Xs div ?W]"
      by (simp add: map_upt_Suc add.assoc del: upt_Suc)
    then show ?thesis
      using whole run src buf tot wb lg f2 True b2 unfolding d dm
      by (simp add: add.assoc)
  qed
qed

lemma final_flush_fields:
  "written_batches (Trace (final_flush s)) =
     written_batches (Trace s) @ (if VectorTiles s = [] then [] else [length (VectorTiles s)])"
  "logged_totals (Trace (final_flush s)) =
     logged_totals (Trace s) @
     (if VectorTiles s = [] then []
      else [(length (VectorTiles s), TotalTileCount s + length (VectorTiles s))])"
  "TotalTileCount (final_flush s) = TotalTileCount s + length (VectorTiles s)"
  by (auto simp: final_flush_def WriteToDB_def Log_def written_batches_append
        logged_totals_append)

lemma seven_tiles_threshold_three:
  assumes "WriteInterval w = 3" "VectorTiles s = []" "Run s"
    and "ServerPartNumber s < length (ServerParts m)" "length Xs = 7"
    and "\<forall>j<7. fst (http_get w (Clock s + 2 * j)) = 200"
    and "\<forall>j<14. \<not> signal_at w (Clock s + j)"
  shows "\<exists>s'. x_loop w m Zv Yv Xs s = Inr s'
           \<and> written_batches (Trace (final_flush s')) = written_batches (Trace s) @ [3, 3, 1]
           \<and> logged_totals (Trace (final_flush s')) =
               logged_totals (Trace s)
               @ [(3, TotalTileCount s + 3), (3, TotalTileCount s + 6),
                  (1, TotalTileCount s + 7)]
           \<and> TotalTileCount (final_flush s') = TotalTileCount s + 7"
proof -
  have d: "(7::nat) div 3 = 2" "(7::nat) mod 3 = 1"
    by simp_all
  have u: "[0..<2] = [0, Suc 0]"
    by (simp add: upt_rec)
  obtain s' where x: "x_loop w m Zv Yv Xs s = Inr s'"
    and buf: "length (VectorTiles s') = 1"
    and tot: "TotalTileCount s' = TotalTileCount s + 6"
    and wb: "written_batches (Trace s') = written_batches (Trace s) @ [3, 3]"
    and lg: "logged_totals (Trace s') =
        logged_totals (Trace s) @ [(3, TotalTileCount s + 3), (3, TotalTileCount s + 6)]"
    using x_loop_all_success [of w s m Xs Zv Yv] assms
    by (auto simp: d u numeral_2_eq_2)
  have ne: "VectorTiles s' \<noteq> []"
    using buf by auto
  show ?thesis
    using x buf tot wb lg ne by (simp add: final_flush_fields)
qed

text \<open>
  Claim C7. The first run is a pass over a row of seven tiles (zoom 3, longitudes \<open>-180\<close>
  to \<open>90\<close>) that ends by itself; the signal arrives during the copy of the database.
  The second is a pass over a row of eight tiles that a signal stops during the seventh
  request. With \<open>WriteInterval = 3\<close> and every answer 200, both make seven requests and
  write three batches, of 3, 3 and 1 tiles, and the totals logged are 3, 6 and 7.
  \<open>WriteToDB\<close> always returns the old total plus the size of the batch.
  The same holds of any seven columns of any row of any source: started with the buffer
  empty and the total at \<open>T\<close>, seven tiles answered 200 at the first request and the flush
  of lines 296--297 write batches of 3, 3 and 1 tiles and log the totals \<open>T + 3\<close>, \<open>T + 6\<close>
  and \<open>T + 7\<close>.
\<close>

theorem batch_flush_boundary:
  "requests (result_trace (program 1
      (scenario_world [scenario_source (0, - 180, 0, 90) [''a''] 3 3] 3 (\<lambda>k. 200) (\<lambda>k. k = 15))
      None)) =
     [(3, 0, 4), (3, 1, 4), (3, 2, 4), (3, 3, 4), (3, 4, 4), (3, 5, 4), (3, 6, 4)]
   \<and> written_batches (result_trace (program 1
      (scenario_world [scenario_source (0, - 180, 0, 90) [''a''] 3 3] 3 (\<lambda>k. 200) (\<lambda>k. k = 15))
      None)) = [3, 3, 1]
   \<and> logged_totals (result_trace (program 1
      (scenario_world [scenario_source (0, - 180, 0, 90) [''a''] 3 3] 3 (\<lambda>k. 200) (\<lambda>k. k = 15))
      None)) = [(3, 3), (3, 6), (1, 7)]
   \<and> requests (result_trace (program 1
      (scenario_world [scenario_source (0, - 180, 0, 179) [''a''] 3 3] 3 (\<lambda>k. 200) (\<lambda>k. k = 13))
      None)) =
     [(3, 0, 4), (3, 1, 4), (3, 2, 4), (3, 3, 4), (3, 4, 4), (3, 5, 4), (3, 6, 4)]
   \<and> written_batches (result_trace (program 1
      (scenario_world [scenario_source (0, - 180, 0, 179) [''a''] 3 3] 3 (\<lambda>k. 200) (\<lambda>k. k = 13))
      None)) = [3, 3, 1]
   \<and> logged_totals (result_trace (program 1
      (scenario_world [scenario_source (0, - 180, 0, 179) [''a''] 3 3] 3 (\<lambda>k. 200) (\<lambda>k. k = 13))
      None)) = [(3, 3), (3, 6), (1, 7)]
   \<and> fst (WriteToDB db TileList count s) = count + length TileList
   \<and> (WriteInterval w = 3 \<and> VectorTiles s = [] \<and> Run s
        \<and> ServerPartNumber s < length (ServerParts m) \<and> length Xs = 7
        \<and> (\<forall>j<7. fst (http_get w (Clock s + 2 * j)) = 200)
        \<and> (\<forall>j<14. \<not> signal_at w (Clock s + j)) \<longrightarrow>
      (\<exists>s'. x_loop w m Zv Yv Xs s = Inr s'
         \<and> written_batches (Trace (final_flush s')) = written_batches (Trace s) @ [3, 3, 1]
         \<and> logged_totals (Trace (final_flush s')) =
             logged_totals (Trace s)
             @ [(3, TotalTileCount s + 3), (3, TotalTileCount s + 6),
                (1, TotalTileCount s + 7)]
         \<and> TotalTileCount (final_flush s') = TotalTileCount s + 7))"
proof -
  have a: "result_trace (program 1
      (scenario_world [scenario_source (0, - 180, 0, 90) [''a''] 3 3] 3 (\<lambda>k. 200) (\<lambda>k. k = 15))
      None) =
     [EvLog LogStart, EvMeta 0, EvLog (LogNowProcessing 0),
      EvWriteGlobalStatus
        \<lparr>Source = 0, StatusX = 0, StatusY = 4, StatusZ = 3, StatusTotalTileCount = 0\<rparr>,
      EvLog (LogWillDownload 3 7), EvGet ''a'' 3 0 4, EvSleep 0, EvGet ''a'' 3 1 4, EvSleep 0,
      EvGet ''a'' 3 2 4,
      EvWriteTiles 0
        [\<lparr>tile_z = 3, tile_x = 0, tile_y = 3, tile_data = []\<rparr>,
         \<lparr>tile_z = 3, tile_x = 1, tile_y = 3, tile_data = []\<rparr>,
         \<lparr>tile_z = 3, tile_x = 2, tile_y = 3, tile_data = []\<rparr>],
      EvLog (LogAdded 3 3),
      EvWriteGlobalStatus
        \<lparr>Source = 0, StatusX = 2, StatusY = 4, StatusZ = 3, StatusTotalTileCount = 3\<rparr>,
      EvSleep 0, EvGet ''a'' 3 3 4, EvSleep 0, EvGet ''a'' 3 4 4, EvSleep 0, EvGet ''a'' 3 5 4,
      EvWriteTiles 0
        [\<lparr>tile_z = 3, tile_x = 3, tile_y = 3, tile_data = []\<rparr>,
         \<lparr>tile_z = 3, tile_x = 4, tile_y = 3, tile_data = []\<rparr>,
         \<lparr>tile_z = 3, tile_x = 5, tile_y = 3, tile_data = []\<rparr>],
      EvLog (LogAdded 3 6),
      EvWriteGlobalStatus
        \<lparr>Source = 0, StatusX = 5, StatusY = 4, StatusZ = 3, StatusTotalTileCount = 6\<rparr>,
      EvSleep 0, EvGet ''a'' 3 6 4, EvSleep 0,
      EvWriteTiles 0 [\<lparr>tile_z = 3, tile_x = 6, tile_y = 3, tile_data = []\<rparr>],
      EvLog (LogAdded 1 7),
      EvWriteGlobalStatus
        \<lparr>Source = 0, StatusX = 6, StatusY = 4, StatusZ = 3, StatusTotalTileCount = 7\<rparr>,
      EvWriteMapStatus 0 1, EvCopy 0 1, EvLog LogWholeArea, EvLog LogShutdown,
      EvLog (LogEnded 7)]"
    by (simp add: run_defs)
  have b: "result_trace (program 1
      (scenario_world [scenario_source (0, - 180, 0, 179) [''a''] 3 3] 3 (\<lambda>k. 200) (\<lambda>k. k = 13))
      None) =
     [EvLog LogStart, EvMeta 0, EvLog (LogNowProcessing 0),
      EvWriteGlobalStatus
        \<lparr>Source = 0, StatusX = 0, StatusY = 4, StatusZ = 3, StatusTotalTileCount = 0\<rparr>,
      EvLog (LogWillDownload 3 8), EvGet ''a'' 3 0 4, EvSleep 0, EvGet ''a'' 3 1 4, EvSleep 0,
      EvGet ''a'' 3 2 4,
      EvWriteTiles 0
        [\<lparr>tile_z = 3, tile_x = 0, tile_y = 3, tile_data = []\<rparr>,
         \<lparr>tile_z = 3, tile_x = 1, tile_y = 3, tile_data = []\<rparr>,
         \<lparr>tile_z = 3, tile_x = 2, tile_y = 3, tile_data = []\<rparr>],
      EvLog (LogAdded 3 3),
      EvWriteGlobalStatus
        \<lparr>Source = 0, StatusX = 2, StatusY = 4, StatusZ = 3, StatusTotalTileCount = 3\<rparr>,
      EvSleep 0, EvGet ''a'' 3 3 4, EvSleep 0, EvGet ''a'' 3 4 4, EvSleep 0, EvGet ''a'' 3 5 4,
      EvWriteTiles 0
        [\<lparr>tile_z = 3, tile_x = 3, tile_y = 3, tile_data = []\<rparr>,
         \<lparr>tile_z = 3, tile_x = 4, tile_y = 3, tile_data = []\<rparr>,
         \<lparr>tile_z = 3, tile_x = 5, tile_y = 3, tile_data = []\<rparr>],
      EvLog (LogAdded 3 6),
      EvWriteGlobalStatus
        \<lparr>Source = 0, StatusX = 5, StatusY = 4, StatusZ = 3, StatusTotalTileCount = 6\<rparr>,
      EvSleep 0, EvGet ''a'' 3 6 4,
      EvWriteTiles 0 [\<lparr>tile_z = 3, tile_x = 6, tile_y = 3, tile_data = []\<rparr>],
      EvLog (LogAdded 1 7),
      EvWriteGlobalStatus
        \<lparr>Source = 0, StatusX = 6, StatusY = 4, StatusZ = 3, StatusTotalTileCount = 7\<rparr>,
      EvLog LogShutdown, EvLog (LogEnded 7)]"
    by (simp add: run_defs)
  show ?thesis
    unfolding a b using seven_tiles_threshold_three [of w s m Xs Zv Yv]
    by (simp add: WriteToDB_def)
qed

text \<open>The witness: the seven columns 0 to 6 of row 4 at zoom 3, from the initial state.\<close>

theorem batch_flush_boundary_witness:
  "WriteInterval (scenario_world [scenario_source (0, - 180, 0, 90) [''a''] 3 3] 3
       (\<lambda>k. 200) (\<lambda>k. False)) = 3
   \<and> VectorTiles (initial (scenario_world [scenario_source (0, - 180, 0, 90) [''a''] 3 3] 3
       (\<lambda>k. 200) (\<lambda>k. False))) = []
   \<and> length [0, 1, 2, 3, 4, 5, 6 :: int] = 7
   \<and> (\<exists>s'. x_loop (scenario_world [scenario_source (0, - 180, 0, 90) [''a''] 3 3] 3
              (\<lambda>k. 200) (\<lambda>k. False))
            (scenario_source (0, - 180, 0, 90) [''a''] 3 3) 3 4 [0, 1, 2, 3, 4, 5, 6]
            (initial (scenario_world [scenario_source (0, - 180, 0, 90) [''a''] 3 3] 3
              (\<lambda>k. 200) (\<lambda>k. False))) = Inr s'
         \<and> written_batches (Trace (final_flush s')) = [3, 3, 1]
         \<and> logged_totals (Trace (final_flush s')) = [(3, 3), (3, 6), (1, 7)]
         \<and> TotalTileCount (final_flush s') = 7)"
proof -
  let ?m = "scenario_source (0, - 180, 0, 90) [''a''] 3 3"
  let ?w = "scenario_world [?m] 3 (\<lambda>k. 200) (\<lambda>k. False)"
  have h: "WriteInterval ?w = 3 \<and> VectorTiles (initial ?w) = [] \<and> Run (initial ?w)
      \<and> ServerPartNumber (initial ?w) < length (ServerParts ?m)
      \<and> length [0, 1, 2, 3, 4, 5, 6 :: int] = 7
      \<and> (\<forall>j<7. fst (http_get ?w (Clock (initial ?w) + 2 * j)) = 200)
      \<and> (\<forall>j<14. \<not> signal_at ?w (Clock (initial ?w) + j))"
    by (simp add: scenario_world_def scenario_source_def initial_def)
  have i: "written_batches (Trace (initial ?w)) = []" "logged_totals (Trace (initial ?w)) = []"
    "TotalTileCount (initial ?w) = 0"
    by (simp_all add: initial_def)
  note th = batch_flush_boundary
    [where w = ?w and s = "initial ?w" and m = ?m and Xs = "[0, 1, 2, 3, 4, 5, 6]"
       and Zv = 3 and Yv = 4]
  have "\<exists>s'. x_loop ?w ?m 3 4 [0, 1, 2, 3, 4, 5, 6] (initial ?w) = Inr s'
         \<and> written_batches (Trace (final_flush s')) = [3, 3, 1]
         \<and> logged_totals (Trace (final_flush s')) = [(3, 3), (3, 6), (1, 7)]
         \<and> TotalTileCount (final_flush s') = 7"
    using th h unfolding i by simp
  then show ?thesis
    using h by simp
qed

section \<open>The server parts of one retry cycle\<close>

text \<open>The server parts of the requests in a trace, oldest first.\<close>

fun mirrors :: "event list \<Rightarrow> string list" where
  "mirrors [] = []"
| "mirrors (EvGet p z x y # es) = p # mirrors es"
| "mirrors (e # es) = mirrors es"

lemma mirrors_append: "mirrors (xs @ ys) = mirrors xs @ mirrors ys"
  by (induction xs rule: mirrors.induct) simp_all

lemma attempt_mirror:
  assumes "ServerPartNumber s < length (ServerParts m)"
  shows "\<exists>rc' s'. attempt w m Zv Xv Yv rc s = Inr (rc', s')
           \<and> mirrors (Trace s') = mirrors (Trace s) @ [ServerParts m ! ServerPartNumber s]
           \<and> ServerPartNumber s' = Suc (ServerPartNumber s) mod length (ServerParts m)"
  using assms
  by (auto simp: attempt_def next_server_mod handle_response_def on_success_def
      flush_batch_def WriteToDB_def WriteGlobalStatus_def Log_def on_failed_def
      blocking_def Let_def mirrors_append)

lemma positions_shift:
  "f (i mod M) # map (\<lambda>j. f ((Suc i mod M + j) mod M)) [0..<a] =
   map (\<lambda>j. f ((i + j) mod M)) [0..<Suc a]"
proof -
  have "[0..<Suc a] = 0 # map Suc [0..<a]"
    by (simp add: upt_conv_Cons map_Suc_upt del: upt_Suc)
  moreover have "\<And>j. (Suc i mod M + j) mod M = (i + Suc j) mod M"
    by (simp add: mod_add_left_eq)
  ultimately show ?thesis
    by (simp add: comp_def del: upt_Suc)
qed

lemma retry_loop_mirrors:
  assumes "ServerPartNumber s < length (ServerParts m)"
  shows "\<exists>a s'. retry_loop w m Zv Xv Yv rc s = Inr s'
           \<and> a \<le> length (ServerParts m) - rc \<and> (rc < length (ServerParts m) \<longrightarrow> 0 < a)
           \<and> mirrors (Trace s') = mirrors (Trace s)
               @ map (\<lambda>j. ServerParts m ! ((ServerPartNumber s + j) mod length (ServerParts m)))
                   [0..<a]
           \<and> ServerPartNumber s' = (ServerPartNumber s + a) mod length (ServerParts m)"
  using assms
proof (induction "length (ServerParts m) - rc" arbitrary: rc s rule: less_induct)
  case less
  let ?M = "length (ServerParts m)"
  let ?i = "ServerPartNumber s"
  show ?case
  proof (cases "rc < ?M")
    case False
    then show ?thesis
      using less.prems by (intro exI [of _ 0]) (simp add: retry_loop.simps)
  next
    case True
    obtain rc' s1 where a: "attempt w m Zv Xv Yv rc s = Inr (rc', s1)"
      and m1: "mirrors (Trace s1) = mirrors (Trace s) @ [ServerParts m ! ?i]"
      and i1: "ServerPartNumber s1 = Suc ?i mod ?M"
      using attempt_mirror [OF less.prems, of w Zv Xv Yv rc] by blast
    have rc': "rc < rc'" "rc' \<le> ?M"
      using attempt_counter [OF a True] by simp_all
    have im: "?i mod ?M = ?i" using less.prems by simp
    show ?thesis
    proof (cases "Run s1")
      case False
      have "retry_loop w m Zv Xv Yv rc s = Inr s1"
        using True a False by (simp add: retry_loop.simps [of w m Zv Xv Yv rc s])
      moreover have "mirrors (Trace s1) = mirrors (Trace s)
          @ map (\<lambda>j. ServerParts m ! ((?i + j) mod ?M)) [0..<1]"
        using m1 im by simp
      moreover have "ServerPartNumber s1 = (?i + 1) mod ?M"
        using i1 by simp
      moreover have "(1::nat) \<le> ?M - rc" using True by simp
      ultimately show ?thesis
        by (intro exI [of _ 1] exI [of _ s1]) simp
    next
      case run: True
      have lt: "Suc ?i mod ?M < ?M"
        using less.prems by (intro mod_less_divisor) auto
      have "?M - rc' < ?M - rc" using rc' True by simp
      then obtain a' s' where r: "retry_loop w m Zv Xv Yv rc' s1 = Inr s'"
        and a': "a' \<le> ?M - rc'"
        and m': "mirrors (Trace s') = mirrors (Trace s1)
            @ map (\<lambda>j. ServerParts m ! ((ServerPartNumber s1 + j) mod ?M)) [0..<a']"
        and i': "ServerPartNumber s' = (ServerPartNumber s1 + a') mod ?M"
        using less.hyps [of rc' s1] lt i1 by auto
      have "retry_loop w m Zv Xv Yv rc s = Inr s'"
        using True a run r by (simp add: retry_loop.simps [of w m Zv Xv Yv rc s])
      moreover have "Suc a' \<le> ?M - rc" using a' rc' by simp
      moreover have "mirrors (Trace s') = mirrors (Trace s)
          @ map (\<lambda>j. ServerParts m ! ((?i + j) mod ?M)) [0..<Suc a']"
        using m' m1 i1 positions_shift [of "\<lambda>k. ServerParts m ! k" ?i ?M a'] im
        by (simp del: upt_Suc)
      moreover have "ServerPartNumber s' = (?i + Suc a') mod ?M"
        using i' i1 by (simp add: mod_add_left_eq)
      ultimately show ?thesis
        by (intro exI [of _ "Suc a'"] exI [of _ s']) simp
    qed
  qed
qed

lemma distinct_positions: "a \<le> M \<Longrightarrow> distinct (map (\<lambda>j. (i + j) mod M) [0..<a])"
proof -
  assume a: "a \<le> M"
  have "inj_on (\<lambda>j. (i + j) mod M) (set [0..<a])"
  proof (rule inj_onI)
    fix j k
    assume jk: "j \<in> set [0..<a]" "k \<in> set [0..<a]" "(i + j) mod M = (i + k) mod M"
    have *: "x = y" if "x \<le> y" "y < M" "(i + x) mod M = (i + y) mod M" for x y
    proof -
      have "M dvd (i + y) - (i + x)"
        using that by (subst mod_eq_dvd_iff_nat [symmetric]) simp_all
      then have "M dvd y - x" by simp
      moreover have "y - x < M" using that by simp
      ultimately have "y - x = 0" using nat_dvd_not_less [of "y - x" M] by auto
      then show ?thesis using that by simp
    qed
    show "j = k"
    proof (cases "j \<le> k")
      case True
      then show ?thesis using * [of j k] jk a by simp
    next
      case False
      then show ?thesis using * [of k j] jk a by simp
    qed
  qed
  then show ?thesis by (simp add: distinct_map)
qed

lemma retry_loop_stale:
  "length (ServerParts m) \<le> ServerPartNumber s \<Longrightarrow> ServerParts m \<noteq> [] \<Longrightarrow>
   retry_loop w m Zv Xv Yv 0 s = Inl (IndexError, s)"
  by (simp add: retry_loop.simps [of w m Zv Xv Yv 0 s] attempt_def next_server_def)

text \<open>
  Claim C6. While the index \<open>ServerPartNumber\<close> is below the length of the list of the
  source, the rotation of lines 248--251 is a round robin: call \<open>j\<close> hands out the part at
  position \<open>(i + j) mod length\<close>; after \<open>k\<close> full rounds the parts handed out are \<open>k\<close> copies
  of the list rotated by \<open>i\<close>, every part was handed out \<open>k\<close> times as often as it occurs
  in the list, and the index is back at \<open>i\<close>. The retry loop of a tile makes at least one
  and at most as many requests as there are server parts, to the positions \<open>i\<close>, \<open>i + 1\<close>,
  ... modulo the length: no position twice.

  The index is a module variable that no source resets, and line 250 compares it with
  the length by \<open>==\<close> after line 248 has used it. An index that is in range for one source
  is past the end of the shorter list of another, and there line 248 raises \<open>IndexError\<close>
  at the first request. The run: two sources with one tile each, the first with two
  server parts, the second with one, every answer 200. The first pass leaves the index
  at 1, and the second pass raises before its first request.
\<close>

theorem mirror_rotation_round_robin:
  assumes "ServerPartNumber s < length (ServerParts m)"
  shows "next_servers (ServerParts m) n (ServerPartNumber s) =
           Inr (map (\<lambda>j. ServerParts m ! ((ServerPartNumber s + j) mod length (ServerParts m)))
                  [0..<n],
                (ServerPartNumber s + n) mod length (ServerParts m))
       \<and> next_servers (ServerParts m) (k * length (ServerParts m)) (ServerPartNumber s) =
           Inr (concat (replicate k (rotate (ServerPartNumber s) (ServerParts m))),
                ServerPartNumber s)
       \<and> count_list (concat (replicate k (rotate (ServerPartNumber s) (ServerParts m)))) p =
           k * count_list (ServerParts m) p
       \<and> (distinct (ServerParts m) \<longrightarrow> distinct (rotate (ServerPartNumber s) (ServerParts m)))
       \<and> (\<exists>a s'. retry_loop w m Zv Xv Yv 0 s = Inr s' \<and> 0 < a \<and> a \<le> length (ServerParts m)
            \<and> mirrors (Trace s') = mirrors (Trace s)
                @ map (\<lambda>j. ServerParts m ! ((ServerPartNumber s + j) mod length (ServerParts m)))
                    [0..<a]
            \<and> distinct (map (\<lambda>j. (ServerPartNumber s + j) mod length (ServerParts m)) [0..<a])
            \<and> ServerPartNumber s' = (ServerPartNumber s + a) mod length (ServerParts m))
       \<and> (length (ServerParts m') \<le> ServerPartNumber s \<and> ServerParts m' \<noteq> [] \<longrightarrow>
            retry_loop w m' Zv Xv Yv 0 s = Inl (IndexError, s))
       \<and> result_error (program 2
            (scenario_world
        [scenario_source (0, 0, 0, 0) [''a'', ''b''] 0 0, scenario_source (0, 0, 0, 0) [''c''] 0 0]
        250 (\<lambda>k. 200) (\<lambda>k. False)) None) = Some IndexError
       \<and> result_trace (program 2
            (scenario_world
        [scenario_source (0, 0, 0, 0) [''a'', ''b''] 0 0, scenario_source (0, 0, 0, 0) [''c''] 0 0]
        250 (\<lambda>k. 200) (\<lambda>k. False)) None) =
           [EvLog LogStart, EvMeta 0, EvLog (LogNowProcessing 0), EvWriteGlobalStatus
            \<lparr>Source = 0, StatusX = 0, StatusY = 0, StatusZ = 0, StatusTotalTileCount
            = 0\<rparr>, EvLog (LogWillDownload 0 1), EvGet ''a'' 0 0 0, EvSleep 0,
            EvWriteTiles 0 [\<lparr>tile_z = 0, tile_x = 0, tile_y = 0, tile_data =
            []\<rparr>], EvLog (LogAdded 1 1), EvWriteGlobalStatus \<lparr>Source = 0,
            StatusX = 0, StatusY = 0, StatusZ = 0, StatusTotalTileCount = 1\<rparr>,
            EvWriteMapStatus 0 1, EvCopy 0 1, EvLog LogWholeArea, EvMeta 1, EvLog
            (LogNowProcessing 1), EvWriteGlobalStatus \<lparr>Source = 1, StatusX = 0,
            StatusY = 0, StatusZ = 0, StatusTotalTileCount = 0\<rparr>, EvLog
            (LogWillDownload 0 1)]"
proof -
  have "\<exists>a s'. retry_loop w m Zv Xv Yv 0 s = Inr s' \<and> 0 < a \<and> a \<le> length (ServerParts m)
      \<and> mirrors (Trace s') = mirrors (Trace s)
          @ map (\<lambda>j. ServerParts m ! ((ServerPartNumber s + j) mod length (ServerParts m)))
              [0..<a]
      \<and> distinct (map (\<lambda>j. (ServerPartNumber s + j) mod length (ServerParts m)) [0..<a])
      \<and> ServerPartNumber s' = (ServerPartNumber s + a) mod length (ServerParts m)"
    using retry_loop_mirrors [OF assms, of w Zv Xv Yv 0] distinct_positions assms by fastforce
  moreover have "result_error (program 2
      (scenario_world
        [scenario_source (0, 0, 0, 0) [''a'', ''b''] 0 0, scenario_source (0, 0, 0, 0) [''c''] 0 0]
        250 (\<lambda>k. 200) (\<lambda>k. False)) None) = Some IndexError"
    by (simp add: run_defs result_error_def)
  moreover have "result_trace (program 2
      (scenario_world
        [scenario_source (0, 0, 0, 0) [''a'', ''b''] 0 0, scenario_source (0, 0, 0, 0) [''c''] 0 0]
        250 (\<lambda>k. 200) (\<lambda>k. False)) None) =
           [EvLog LogStart, EvMeta 0, EvLog (LogNowProcessing 0), EvWriteGlobalStatus
            \<lparr>Source = 0, StatusX = 0, StatusY = 0, StatusZ = 0, StatusTotalTileCount
            = 0\<rparr>, EvLog (LogWillDownload 0 1), EvGet ''a'' 0 0 0, EvSleep 0,
            EvWriteTiles 0 [\<lparr>tile_z = 0, tile_x = 0, tile_y = 0, tile_data =
            []\<rparr>], EvLog (LogAdded 1 1), EvWriteGlobalStatus \<lparr>Source = 0,
            StatusX = 0, StatusY = 0, StatusZ = 0, StatusTotalTileCount = 1\<rparr>,
            EvWriteMapStatus 0 1, EvCopy 0 1, EvLog LogWholeArea, EvMeta 1, EvLog
            (LogNowProcessing 1), EvWriteGlobalStatus \<lparr>Source = 1, StatusX = 0,
            StatusY = 0, StatusZ = 0, StatusTotalTileCount = 0\<rparr>, EvLog
            (LogWillDownload 0 1)]"
    by (simp add: run_defs)
  ultimately show ?thesis
    using assms
    by (simp add: next_servers_nth rounds cycle_rotate count_rounds count_rotate
        retry_loop_stale)
qed

text \<open>The witness: three server parts, the index at 1, and a tile that is answered 500
  three times.\<close>

theorem mirror_rotation_round_robin_witness:
  "ServerPartNumber ((initial (scenario_world [scenario_source (0, 0, 0, 0) [''a'', ''b'', ''c''] 0 0]
        250 (\<lambda>k. 500) (\<lambda>k. False)))\<lparr>ServerPartNumber := 1\<rparr>)
     < length (ServerParts (scenario_source (0, 0, 0, 0) [''a'', ''b'', ''c''] 0 0))
   \<and> next_servers [''a'', ''b'', ''c''] 4 1 = Inr ([''b'', ''c'', ''a'', ''b''], 2)
   \<and> next_servers [''a'', ''b'', ''c''] 6 1 = Inr ([''b'', ''c'', ''a'', ''b'', ''c'', ''a''], 1)
   \<and> count_list [''b'', ''c'', ''a'', ''b'', ''c'', ''a''] ''c'' = 2
   \<and> distinct [''b'', ''c'', ''a'']
   \<and> (\<exists>a s'. retry_loop (scenario_world [scenario_source (0, 0, 0, 0) [''a'', ''b'', ''c''] 0 0]
               250 (\<lambda>k. 500) (\<lambda>k. False))
             (scenario_source (0, 0, 0, 0) [''a'', ''b'', ''c''] 0 0) 0 0 0 0
             ((initial (scenario_world [scenario_source (0, 0, 0, 0) [''a'', ''b'', ''c''] 0 0]
               250 (\<lambda>k. 500) (\<lambda>k. False)))\<lparr>ServerPartNumber := 1\<rparr>) = Inr s'
          \<and> 0 < a \<and> a \<le> 3
          \<and> mirrors (Trace s') = map (\<lambda>j. [''a'', ''b'', ''c''] ! ((1 + j) mod 3)) [0..<a]
          \<and> ServerPartNumber s' = (1 + a) mod 3)
   \<and> mirrors (Trace (after (retry_loop (scenario_world
               [scenario_source (0, 0, 0, 0) [''a'', ''b'', ''c''] 0 0] 250 (\<lambda>k. 500) (\<lambda>k. False))
             (scenario_source (0, 0, 0, 0) [''a'', ''b'', ''c''] 0 0) 0 0 0 0
             ((initial (scenario_world [scenario_source (0, 0, 0, 0) [''a'', ''b'', ''c''] 0 0]
               250 (\<lambda>k. 500) (\<lambda>k. False)))\<lparr>ServerPartNumber := 1\<rparr>)))) = [''b'', ''c'', ''a'']"
proof -
  let ?m = "scenario_source (0, 0, 0, 0) [''a'', ''b'', ''c''] 0 0"
  let ?w = "scenario_world [?m] 250 (\<lambda>k. 500) (\<lambda>k. False)"
  let ?s = "(initial ?w)\<lparr>ServerPartNumber := 1\<rparr>"
  have h: "ServerPartNumber ?s < length (ServerParts ?m)"
    by (simp add: scenario_source_def)
  have p: "ServerParts ?m = [''a'', ''b'', ''c'']" "ServerPartNumber ?s = 1"
    "mirrors (Trace ?s) = []"
    by (simp_all add: scenario_source_def initial_def)
  have r: "rotate 1 [''a'', ''b'', ''c''] = [''b'', ''c'', ''a'']"
    by code_simp
  have m: "map (\<lambda>j. [''a'', ''b'', ''c''] ! ((1 + j) mod length [''a'', ''b'', ''c''])) [0..<4] =
      [''b'', ''c'', ''a'', ''b'']"
    by code_simp
  have c: "concat (replicate 2 [''b'', ''c'', ''a'']) = [''b'', ''c'', ''a'', ''b'', ''c'', ''a'']"
    by code_simp
  note th = mirror_rotation_round_robin
    [where s = ?s and m = ?m and n = 4 and k = 2 and p = "''c''" and w = ?w and Zv = 0
       and Xv = 0 and Yv = 0 and m' = ?m, OF h, unfolded p]
  have a: "next_servers [''a'', ''b'', ''c''] 4 1 = Inr ([''b'', ''c'', ''a'', ''b''], 2)"
    "next_servers [''a'', ''b'', ''c''] 6 1 = Inr ([''b'', ''c'', ''a'', ''b'', ''c'', ''a''], 1)"
    "count_list [''b'', ''c'', ''a'', ''b'', ''c'', ''a''] ''c'' = 2"
    using th unfolding r m c by simp_all
  have b: "\<exists>a s'. retry_loop ?w ?m 0 0 0 0 ?s = Inr s' \<and> 0 < a \<and> a \<le> 3
      \<and> mirrors (Trace s') = map (\<lambda>j. [''a'', ''b'', ''c''] ! ((1 + j) mod 3)) [0..<a]
      \<and> ServerPartNumber s' = (1 + a) mod 3"
  proof -
    obtain a s' where "retry_loop ?w ?m 0 0 0 0 ?s = Inr s'" "0 < a"
      "a \<le> length [''a'', ''b'', ''c'']"
      "mirrors (Trace s') = []
         @ map (\<lambda>j. [''a'', ''b'', ''c''] ! ((1 + j) mod length [''a'', ''b'', ''c''])) [0..<a]"
      "ServerPartNumber s' = (1 + a) mod length [''a'', ''b'', ''c'']"
      using th by (elim conjE exE) (rule that)
    then show ?thesis
      by (intro exI [of _ a] exI [of _ s']) simp
  qed
  have e: "mirrors (Trace (after (retry_loop ?w ?m 0 0 0 0 ?s))) = [''b'', ''c'', ''a'']"
    by (simp add: run_defs)
  show ?thesis
    using h a b e by (intro conjI) simp_all
qed

end
